theory Spec2Isabelle
  imports Main "HOL-Library.Word"
begin

unbundle bit_operations_syntax

section \<open>Packet wire format\<close>

text \<open>
  The packet codec of the transport: \<open>NewPacket\<close>, \<open>Packet.Serialize\<close>,
  \<open>DeserializePacket\<close> and \<open>calculateChecksum\<close>, with the byte-order helpers
  \<open>htons\<close>, \<open>ntohs\<close>, \<open>htonl\<close> and \<open>ntohl\<close>. Go's \<open>uint8\<close>, \<open>uint16\<close> and
  \<open>uint32\<close> are words of that width; a byte slice is a list of bytes; every
  \<open>fmt.Errorf\<close> of the code is a constructor of \<open>error\<close>.
\<close>

type_synonym byte = "8 word"

datatype error =
    PacketTooShort
  | PacketLengthMismatch
  | UnsupportedProtocolVersion
  | ChecksumMismatch
  | NotAnAcknowledgment
  | AckForFuturePacket
  | ReceiveBufferOverflow

definition DATA_PACKET :: "8 word" where "DATA_PACKET = 0x01"
definition ACK_PACKET :: "8 word" where "ACK_PACKET = 0x02"
definition SYN_PACKET :: "8 word" where "SYN_PACKET = 0x03"
definition FIN_PACKET :: "8 word" where "FIN_PACKET = 0x04"
definition RST_PACKET :: "8 word" where "RST_PACKET = 0x05"

definition ACK_FLAG :: "8 word" where "ACK_FLAG = 0x01"
definition SYN_FLAG :: "8 word" where "SYN_FLAG = 0x02"
definition FIN_FLAG :: "8 word" where "FIN_FLAG = 0x04"
definition RST_FLAG :: "8 word" where "RST_FLAG = 0x08"

definition PROTOCOL_VERSION :: "8 word" where "PROTOCOL_VERSION = 0x01"
definition PACKET_HEADER_SIZE :: nat where "PACKET_HEADER_SIZE = 16"
definition MAX_PAYLOAD_SIZE :: nat where "MAX_PAYLOAD_SIZE = 1400"

record Packet =
  Version :: "8 word"
  Type :: "8 word"
  Flags :: "8 word"
  Length :: "16 word"
  SeqNum :: "32 word"
  AckNum :: "32 word"
  Checksum :: "32 word"
  Payload :: "byte list"

subsection \<open>Byte order\<close>

definition htons :: "16 word \<Rightarrow> 16 word" where
  "htons host = (push_bit 8 host AND 0xff00) OR (drop_bit 8 host AND 0x00ff)"

definition ntohs :: "16 word \<Rightarrow> 16 word" where
  "ntohs network = (push_bit 8 network AND 0xff00) OR (drop_bit 8 network AND 0x00ff)"

definition htonl :: "32 word \<Rightarrow> 32 word" where
  "htonl host =
     push_bit 24 (host AND 0x000000ff) OR
     push_bit 8 (host AND 0x0000ff00) OR
     drop_bit 8 (host AND 0x00ff0000) OR
     drop_bit 24 (host AND 0xff000000)"

definition ntohl :: "32 word \<Rightarrow> 32 word" where
  "ntohl network =
     push_bit 24 (network AND 0x000000ff) OR
     push_bit 8 (network AND 0x0000ff00) OR
     drop_bit 8 (network AND 0x00ff0000) OR
     drop_bit 24 (network AND 0xff000000)"

text \<open>
  The code reads and writes header fields through \<open>unsafe.Pointer\<close> casts of
  \<open>&buffer[i]\<close> to \<open>*uint16\<close> and \<open>*uint32\<close>: a native-endian access to the
  bytes at \<open>i\<close>, \<open>i + 1\<close>, ... The model takes the little-endian host the code
  is written for (Linux epoll and splice on amd64/arm64), where the byte at the
  lowest address is the least significant one; together with the byte swap of
  \<open>htons\<close>/\<open>htonl\<close> this puts the fields on the wire most significant byte
  first. Every such access of the code is at indices the slice has.
\<close>

definition store_u16 :: "byte list \<Rightarrow> nat \<Rightarrow> 16 word \<Rightarrow> byte list" where
  "store_u16 buffer i v = buffer[i := ucast v, i + 1 := ucast (drop_bit 8 v)]"

definition store_u32 :: "byte list \<Rightarrow> nat \<Rightarrow> 32 word \<Rightarrow> byte list" where
  "store_u32 buffer i v =
     buffer[i := ucast v, i + 1 := ucast (drop_bit 8 v),
            i + 2 := ucast (drop_bit 16 v), i + 3 := ucast (drop_bit 24 v)]"

definition load_u16 :: "byte list \<Rightarrow> nat \<Rightarrow> 16 word" where
  "load_u16 data i = ucast (data ! i) OR push_bit 8 (ucast (data ! (i + 1)))"

definition load_u32 :: "byte list \<Rightarrow> nat \<Rightarrow> 32 word" where
  "load_u32 data i =
     ucast (data ! i) OR push_bit 8 (ucast (data ! (i + 1))) OR
     push_bit 16 (ucast (data ! (i + 2))) OR push_bit 24 (ucast (data ! (i + 3)))"

text \<open>Go's \<open>copy(dst, src)\<close>: the first \<open>min (len dst) (len src)\<close> elements are overwritten.\<close>

definition copy_bytes :: "byte list \<Rightarrow> byte list \<Rightarrow> byte list" where
  "copy_bytes dst src = (let n = min (length dst) (length src) in take n src @ drop n dst)"

subsection \<open>Checksum\<close>

text \<open>
  One pass of \<open>calculateChecksum\<close> over a slice: whole 4-byte groups are added as
  big-endian words (\<open>ntohl\<close> of the native load), a last group of 1 to 3 bytes is
  shifted into the high end of a word. \<open>uint32\<close> addition wraps.
\<close>

fun partial_word :: "byte list \<Rightarrow> nat \<Rightarrow> 32 word \<Rightarrow> 32 word" where
  "partial_word [] k w = w"
| "partial_word (b # bs) k w = partial_word bs (k + 1) (w OR push_bit (8 * (3 - k)) (ucast b))"

fun sum_words :: "byte list \<Rightarrow> 32 word \<Rightarrow> 32 word" where
  "sum_words (a # b # c # d # rest) s = sum_words rest (s + ntohl (load_u32 [a, b, c, d] 0))"
| "sum_words [] s = s"
| "sum_words bs s = s + partial_word bs 0 0"

lemma nat_fold_less:
  fixes n :: nat
  assumes "0 < n div 65536"
  shows "n mod 65536 + n div 65536 < n"
proof -
  define q where "q = n div 65536"
  define r where "r = n mod 65536"
  have "n = 65536 * q + r" by (simp add: q_def r_def)
  moreover have "0 < q" using assms by (simp add: q_def)
  ultimately have "r + q < n" by linarith
  then show ?thesis by (simp add: q_def r_def)
qed

lemma fold_step_less:
  fixes s :: "32 word"
  assumes "0 < drop_bit 16 s"
  shows "unat ((s AND 0xFFFF) + drop_bit 16 s) < unat s"
proof -
  have m: "(0xFFFF :: 32 word) = mask 16" by (simp add: mask_eq_exp_minus_1)
  have lo: "unat (s AND 0xFFFF) = unat s mod 65536"
    unfolding m
    by (simp add: take_bit_eq_mask [symmetric] unsigned_take_bit_eq take_bit_eq_mod unat_mod_distrib)
  have hi: "unat (drop_bit 16 s) = unat s div 65536"
    by (simp add: drop_bit_eq_div unat_div_distrib)
  have pos: "0 < unat s div 65536"
    using assms hi by (simp add: word_less_nat_alt)
  have "unat ((s AND 0xFFFF) + drop_bit 16 s) \<le> unat (s AND 0xFFFF) + unat (drop_bit 16 s)"
    by (simp add: unat_word_ariths)
  also have "\<dots> = unat s mod 65536 + unat s div 65536" using lo hi by simp
  also have "\<dots> < unat s" using pos by (rule nat_fold_less)
  finally show ?thesis .
qed

text \<open>The loop \<open>for (sum >> 16) > 0 { sum = (sum & 0xFFFF) + (sum >> 16) }\<close>.\<close>

function fold_carry :: "32 word \<Rightarrow> 32 word" where
  "fold_carry s = (if drop_bit 16 s > 0 then fold_carry ((s AND 0xFFFF) + drop_bit 16 s) else s)"
  by pat_completeness auto
termination
  by (relation "measure unat") (simp_all add: fold_step_less)

declare fold_carry.simps [simp del]

definition calculateChecksum :: "byte list \<Rightarrow> byte list \<Rightarrow> 32 word" where
  "calculateChecksum header payload =
     (let s = sum_words header 0;
          s = sum_words payload s;
          s = fold_carry s
      in NOT s AND 0xFFFFFFFF)"

subsection \<open>Construction, encoding, decoding\<close>

definition NewPacket :: "8 word \<Rightarrow> 8 word \<Rightarrow> 32 word \<Rightarrow> 32 word \<Rightarrow> byte list \<Rightarrow> Packet" where
  "NewPacket packetType flags seqNum ackNum payload =
     (let payload = (if length payload > MAX_PAYLOAD_SIZE
                     then take MAX_PAYLOAD_SIZE payload else payload)
      in \<lparr> Version = PROTOCOL_VERSION,
            Type = packetType,
            Flags = flags,
            Length = of_nat (PACKET_HEADER_SIZE + length payload),
            SeqNum = seqNum,
            AckNum = ackNum,
            Checksum = 0,
            Payload = payload \<rparr>)"

text \<open>
  \<open>Serialize\<close> allocates \<open>p.Length\<close> bytes and slices the buffer at the header
  size, so a packet whose \<open>Length\<close> is below 16 makes it panic (index or slice
  bounds out of range): \<open>None\<close>. It also stores the checksum in the packet, so
  it returns the updated packet next to the bytes.
\<close>

definition Serialize :: "Packet \<Rightarrow> (byte list \<times> Packet) option" where
  "Serialize p =
     (if unat (Length p) < PACKET_HEADER_SIZE then None
      else
        let buffer = replicate (unat (Length p)) 0;
            buffer = buffer[0 := push_bit 4 (Version p) OR (Type p AND 0x0F)];
            buffer = buffer[1 := Flags p];
            buffer = store_u16 buffer 2 (htons (Length p));
            buffer = store_u32 buffer 4 (htonl (SeqNum p));
            buffer = store_u32 buffer 8 (htonl (AckNum p));
            buffer = (if length (Payload p) > 0
                      then take PACKET_HEADER_SIZE buffer @
                           copy_bytes (drop PACKET_HEADER_SIZE buffer) (Payload p)
                      else buffer);
            checksum = calculateChecksum (take 12 buffer) (drop PACKET_HEADER_SIZE buffer);
            buffer = store_u32 buffer 12 (htonl checksum)
        in Some (buffer, p\<lparr>Checksum := checksum\<rparr>))"

text \<open>The header fields as \<open>DeserializePacket\<close> unpacks them from at least 16 bytes.\<close>

definition unpack_header :: "byte list \<Rightarrow> Packet" where
  "unpack_header data =
     (let versionType = data ! 0
      in \<lparr> Version = drop_bit 4 versionType AND 0x0F,
            Type = versionType AND 0x0F,
            Flags = data ! 1,
            Length = ntohs (load_u16 data 2),
            SeqNum = ntohl (load_u32 data 4),
            AckNum = ntohl (load_u32 data 8),
            Checksum = ntohl (load_u32 data 12),
            Payload = [] \<rparr>)"

definition DeserializePacket :: "byte list \<Rightarrow> error + Packet" where
  "DeserializePacket data =
     (if length data < PACKET_HEADER_SIZE then Inl PacketTooShort
      else
        let p = unpack_header data
        in if unat (Length p) \<noteq> length data then Inl PacketLengthMismatch
           else if Version p \<noteq> PROTOCOL_VERSION then Inl UnsupportedProtocolVersion
           else
             let p = (if Length p > of_nat PACKET_HEADER_SIZE
                      then p\<lparr>Payload :=
                             copy_bytes (replicate (unat (Length p - of_nat PACKET_HEADER_SIZE)) 0)
                                        (drop PACKET_HEADER_SIZE data)\<rparr>
                      else p);
                 expectedChecksum =
                   calculateChecksum (take 12 data) (drop PACKET_HEADER_SIZE data)
             in if Checksum p \<noteq> expectedChecksum then Inl ChecksumMismatch
                else Inr p)"

definition IsDataPacket :: "Packet \<Rightarrow> bool" where
  "IsDataPacket p \<longleftrightarrow> Type p = DATA_PACKET"

definition HasAck :: "Packet \<Rightarrow> bool" where
  "HasAck p \<longleftrightarrow> (Flags p AND ACK_FLAG) \<noteq> 0"

text \<open>
  A 16-byte input whose version nibble is 2 (the protocol version is 1) and whose
  length field says 17.
\<close>

definition wrong_version_and_length :: "byte list" where
  "wrong_version_and_length = [0x21, 0, 0, 17, 0, 0, 0, 0, 0, 0, 0, 0, 0, 0, 0, 0]"

subsection \<open>The wire image, written out\<close>

text \<open>
  Auxiliary definitions for the proofs: the bytes a native little-endian store
  writes, the 12 header bytes that enter the checksum, and the whole datagram
  as one list. \<open>Serialize\<close> is proved to produce exactly \<open>wire\<close>.
\<close>

definition bytes_u16 :: "16 word \<Rightarrow> byte list" where
  "bytes_u16 v = [ucast v, ucast (drop_bit 8 v)]"

definition bytes_u32 :: "32 word \<Rightarrow> byte list" where
  "bytes_u32 v = [ucast v, ucast (drop_bit 8 v), ucast (drop_bit 16 v), ucast (drop_bit 24 v)]"

definition wire :: "byte \<Rightarrow> byte \<Rightarrow> 16 word \<Rightarrow> 32 word \<Rightarrow> 32 word \<Rightarrow> 32 word \<Rightarrow> byte list \<Rightarrow> byte list" where
  "wire b0 fl L s a c pl =
     [b0, fl] @ bytes_u16 (htons L) @ bytes_u32 (htonl s) @ bytes_u32 (htonl a) @
     bytes_u32 (htonl c) @ pl"

definition header12 :: "Packet \<Rightarrow> byte list" where
  "header12 p = [push_bit 4 (Version p) OR (Type p AND 0x0F), Flags p] @ bytes_u16 (htons (Length p))
                @ bytes_u32 (htonl (SeqNum p)) @ bytes_u32 (htonl (AckNum p))"

section \<open>The lock-protected reliability engine\<close>

text \<open>
  \<open>ReliabilityLayer\<close> keeps its bookkeeping in Go maps guarded by mutexes. Every
  method takes its locks around the statements that touch the shared fields, so a
  call is modelled as one step on the record of fields, returned updated. The
  maps are partial functions on \<open>uint32\<close> keys; \<open>len\<close> of a map is the number of
  its keys.

  A \<open>time.Time\<close> is a number of nanoseconds, and the clock reading of
  \<open>time.Now()\<close> is a parameter \<open>now\<close> of the methods that read the clock.
  A \<open>time.Duration\<close> is an \<open>int64\<close> of nanoseconds: an \<open>int\<close> here, with
  the wrap-around of its arithmetic written out (\<open>wrap64\<close>), Go's division that
  truncates towards zero (\<open>go_div\<close>) and the saturation of \<open>Time.Sub\<close>.
\<close>

definition wrap64 :: "int \<Rightarrow> int" where
  "wrap64 x = (x + 2 ^ 63) mod 2 ^ 64 - 2 ^ 63"

definition go_div :: "int \<Rightarrow> int \<Rightarrow> int" where
  "go_div a b = (if (a < 0) = (b < 0) then \<bar>a\<bar> div \<bar>b\<bar> else - (\<bar>a\<bar> div \<bar>b\<bar>))"

definition Millisecond :: int where "Millisecond = 1000000"
definition Second :: int where "Second = 1000000000"

text \<open>\<open>t.Sub(u)\<close>: the difference, or the largest or smallest \<open>Duration\<close> when it does not fit.\<close>

definition time_Sub :: "int \<Rightarrow> int \<Rightarrow> int" where
  "time_Sub t u =
     (let d = t - u
      in if d > 2 ^ 63 - 1 then 2 ^ 63 - 1 else if d < - (2 ^ 63) then - (2 ^ 63) else d)"

record UnackedPacket =
  Packet :: Packet
  SentTime :: int
  RetryCount :: int

record ReliabilityLayer =
  nextSeqNum :: "32 word"
  unackedPackets :: "32 word \<rightharpoonup> UnackedPacket"
  receivedSeqs :: "32 word \<rightharpoonup> bool"
  orderingBuffer :: "32 word \<rightharpoonup> Packet"
  nextExpectedSeq :: "32 word"
  windowSize :: "32 word"
  congestionWindow :: "32 word"
  ssthresh :: "32 word"
  rttSamples :: "int list"
  averageRTT :: int
  retransmissionTimeout :: int
  maxBufferSize :: int

definition NewReliabilityLayer :: ReliabilityLayer where
  "NewReliabilityLayer =
     \<lparr> nextSeqNum = 1,
       unackedPackets = Map.empty,
       receivedSeqs = Map.empty,
       orderingBuffer = Map.empty,
       nextExpectedSeq = 1,
       windowSize = 32,
       congestionWindow = 1,
       ssthresh = 32,
       rttSamples = [],
       averageRTT = 100 * Millisecond,
       retransmissionTimeout = 1000 * Millisecond,
       maxBufferSize = 1000 \<rparr>"

definition GetNextSeqNum :: "ReliabilityLayer \<Rightarrow> 32 word \<times> ReliabilityLayer" where
  "GetNextSeqNum r = (nextSeqNum r, r\<lparr>nextSeqNum := nextSeqNum r + 1\<rparr>)"

definition SendPacketWithTimestamp :: "ReliabilityLayer \<Rightarrow> Packet \<Rightarrow> int \<Rightarrow> ReliabilityLayer" where
  "SendPacketWithTimestamp r packet timestamp =
     (if IsDataPacket packet
      then r\<lparr>unackedPackets := (unackedPackets r)(SeqNum packet \<mapsto>
               \<lparr>Packet = packet, SentTime = timestamp, RetryCount = 0\<rparr>)\<rparr>
      else r)"

definition SendPacket :: "ReliabilityLayer \<Rightarrow> Packet \<Rightarrow> int \<Rightarrow> ReliabilityLayer" where
  "SendPacket r packet now = SendPacketWithTimestamp r packet now"

definition HasUnackedPacket :: "ReliabilityLayer \<Rightarrow> 32 word \<Rightarrow> bool" where
  "HasUnackedPacket r seqNum \<longleftrightarrow> unackedPackets r seqNum \<noteq> None"

definition handleSuccessfulAck :: "ReliabilityLayer \<Rightarrow> ReliabilityLayer" where
  "handleSuccessfulAck r =
     (if congestionWindow r < ssthresh r
      then r\<lparr>congestionWindow := congestionWindow r + 1\<rparr>
      else if congestionWindow r > 0
           then r\<lparr>congestionWindow := congestionWindow r + 1 div congestionWindow r\<rparr>
           else r)"

definition SimulatePacketLoss :: "ReliabilityLayer \<Rightarrow> ReliabilityLayer" where
  "SimulatePacketLoss r =
     (let r = r\<lparr>ssthresh := congestionWindow r div 2\<rparr>;
          r = (if ssthresh r < 1 then r\<lparr>ssthresh := 1\<rparr> else r)
      in r\<lparr>congestionWindow := ssthresh r\<rparr>)"

definition updateRTT :: "ReliabilityLayer \<Rightarrow> int \<Rightarrow> ReliabilityLayer" where
  "updateRTT r sample =
     (let samples = rttSamples r @ [sample];
          samples = (if length samples > 10 then tl samples else samples);
          total = foldl (\<lambda>total rtt. wrap64 (total + rtt)) 0 samples;
          average = go_div total (int (length samples));
          rto = wrap64 (average * 2);
          rto = (if rto < 100 * Millisecond then 100 * Millisecond else rto);
          rto = (if rto > 5 * Second then 5 * Second else rto)
      in r\<lparr>rttSamples := samples, averageRTT := average, retransmissionTimeout := rto\<rparr>)"

text \<open>
  The samples \<open>updateRTT\<close> averages over: the stored samples and the new one,
  without the oldest when that makes more than 10.
\<close>

definition sample_window :: "int list \<Rightarrow> int \<Rightarrow> int list" where
  "sample_window samples sample =
     (if length (samples @ [sample]) > 10 then tl (samples @ [sample]) else samples @ [sample])"

text \<open>\<open>HandleAck\<close> returns Go's \<open>error\<close>: \<open>None\<close> is \<open>nil\<close>.\<close>

definition HandleAck :: "ReliabilityLayer \<Rightarrow> Packet \<Rightarrow> int \<Rightarrow> error option \<times> ReliabilityLayer" where
  "HandleAck r ackPacket now =
     (if \<not> HasAck ackPacket then (Some NotAnAcknowledgment, r)
      else
        let ackNum = AckNum ackPacket;
            seqNum = ackNum - 1
        in case unackedPackets r seqNum of
             None \<Rightarrow>
               if seqNum > nextSeqNum r then (Some AckForFuturePacket, r) else (None, r)
           | Some unackedPacket \<Rightarrow>
               let rtt = time_Sub now (SentTime unackedPacket);
                   r = updateRTT r rtt;
                   r = r\<lparr>unackedPackets := (unackedPackets r)(seqNum := None)\<rparr>;
                   r = handleSuccessfulAck r
               in (None, r))"

text \<open>
  \<open>GetTimedOutPackets\<close> ranges over the map under a read lock and changes
  nothing. Go visits the keys of a map in an unspecified order; \<open>keys\<close> is the
  order of this call, each key of the map once.
\<close>

definition GetTimedOutPackets :: "ReliabilityLayer \<Rightarrow> int \<Rightarrow> 32 word list \<Rightarrow> Packet list" where
  "GetTimedOutPackets r now keys =
     concat (map (\<lambda>k. case unackedPackets r k of
                          None \<Rightarrow> []
                        | Some unackedPacket \<Rightarrow>
                            if time_Sub now (SentTime unackedPacket) > retransmissionTimeout r
                            then [Packet unackedPacket] else [])
                 keys)"

definition IsPacketDuplicate :: "ReliabilityLayer \<Rightarrow> Packet \<Rightarrow> bool" where
  "IsPacketDuplicate r packet =
     (case receivedSeqs r (SeqNum packet) of None \<Rightarrow> False | Some b \<Rightarrow> b)"

definition MarkPacketReceived :: "ReliabilityLayer \<Rightarrow> Packet \<Rightarrow> ReliabilityLayer" where
  "MarkPacketReceived r packet = r\<lparr>receivedSeqs := (receivedSeqs r)(SeqNum packet \<mapsto> True)\<rparr>"

definition ReceivePacket :: "ReliabilityLayer \<Rightarrow> Packet \<Rightarrow> error option \<times> ReliabilityLayer" where
  "ReceivePacket r packet =
     (let bufferSize = int (card (dom (orderingBuffer r)))
      in if bufferSize \<ge> maxBufferSize r then (Some ReceiveBufferOverflow, r)
         else if IsPacketDuplicate r packet then (None, r)
         else
           let r = MarkPacketReceived r packet;
               r = r\<lparr>orderingBuffer := (orderingBuffer r)(SeqNum packet \<mapsto> packet)\<rparr>
           in (None, r))"

text \<open>
  The loop of \<open>GetOrderedPackets\<close>: while the buffer holds the next expected
  sequence number, append that packet, delete it, and increment the counter
  (which wraps at \<open>2 ^ 32\<close>). Each round deletes a key, so the loop ends.
\<close>

function ordered_loop ::
  "(32 word \<rightharpoonup> Packet) \<Rightarrow> 32 word \<Rightarrow> Packet list \<Rightarrow> Packet list \<times> (32 word \<rightharpoonup> Packet) \<times> 32 word"
where
  "ordered_loop buffer next orderedPackets =
     (case buffer next of
        None \<Rightarrow> (orderedPackets, buffer, next)
      | Some packet \<Rightarrow> ordered_loop (buffer(next := None)) (next + 1) (orderedPackets @ [packet]))"
  by pat_completeness auto
termination
proof (relation "measure (\<lambda>(buffer, next, orderedPackets). card (dom buffer))")
  show "wf (measure (\<lambda>(buffer, next, orderedPackets). card (dom buffer)))" by simp
next
  fix buffer :: "32 word \<rightharpoonup> Packet" and "next" :: "32 word"
    and orderedPackets :: "Packet list" and packet
  assume "buffer next = Some packet"
  then have "next \<in> dom buffer" by blast
  with card_Diff1_less [of "dom buffer" "next"]
  show "((buffer(next := None), next + 1, orderedPackets @ [packet]),
              (buffer, next, orderedPackets))
             \<in> measure (\<lambda>(buffer, next, orderedPackets). card (dom buffer))"
    by simp
qed

declare ordered_loop.simps [simp del]

definition GetOrderedPackets :: "ReliabilityLayer \<Rightarrow> Packet list \<times> ReliabilityLayer" where
  "GetOrderedPackets r =
     (case ordered_loop (orderingBuffer r) (nextExpectedSeq r) [] of
        (orderedPackets, buffer, next) \<Rightarrow>
          (orderedPackets, r\<lparr>orderingBuffer := buffer, nextExpectedSeq := next\<rparr>))"

definition SetRetransmissionTimeout :: "ReliabilityLayer \<Rightarrow> int \<Rightarrow> ReliabilityLayer" where
  "SetRetransmissionTimeout r timeout = r\<lparr>retransmissionTimeout := timeout\<rparr>"

definition SetMaxBufferSize :: "ReliabilityLayer \<Rightarrow> int \<Rightarrow> ReliabilityLayer" where
  "SetMaxBufferSize r newSize = r\<lparr>maxBufferSize := newSize\<rparr>"

subsection \<open>Runs of the receive path\<close>

text \<open>
  A run of the receive path is a list of calls, \<open>ReceivePacket\<close> with a packet
  or \<open>GetOrderedPackets\<close>; \<open>run_ops\<close> makes the calls in order and collects
  what the drains hand to the application. \<open>receive_inv\<close> is the invariant of
  the three receive-side fields that keeps a sequence number from being delivered
  twice: buffered packets sit under their own sequence number, and everything
  buffered or delivered is marked as seen.
\<close>

datatype receive_op = Receive Packet | Drain

fun run_ops :: "ReliabilityLayer \<Rightarrow> receive_op list \<Rightarrow> Packet list \<Rightarrow> Packet list \<times> ReliabilityLayer" where
  "run_ops r [] delivered = (delivered, r)"
| "run_ops r (Receive packet # ops) delivered = run_ops (snd (ReceivePacket r packet)) ops delivered"
| "run_ops r (Drain # ops) delivered =
     (case GetOrderedPackets r of
        (orderedPackets, r') \<Rightarrow> run_ops r' ops (delivered @ orderedPackets))"

definition receive_inv :: "ReliabilityLayer \<Rightarrow> Packet list \<Rightarrow> bool" where
  "receive_inv r delivered \<longleftrightarrow>
     (\<forall>k p. orderingBuffer r k = Some p \<longrightarrow> SeqNum p = k) \<and>
     (\<forall>k \<in> dom (orderingBuffer r). receivedSeqs r k = Some True) \<and>
     (\<forall>s \<in> set (map SeqNum delivered). receivedSeqs r s = Some True) \<and>
     set (map SeqNum delivered) \<inter> dom (orderingBuffer r) = {} \<and>
     distinct (map SeqNum delivered)"

section \<open>The lock-free reliability engine\<close>

text \<open>
  \<open>LockFreeReliabilityLayer\<close> keeps its scalars in atomics and its packets in
  three lock-free structures. The model is one thread's view: a compare-and-swap
  loop succeeds at its first attempt, an atomic load reads the field. The hash
  table is its slice of buckets (\<open>size\<close> is the length of the slice and
  \<open>mask\<close> is \<open>size - 1\<close>, as \<open>NewLockFreeHashTable\<close> sets them once); a
  bucket is \<open>nil\<close> or points to the entry only the table owns. The queue, a
  linked list behind a dummy node, is the list of its elements, oldest first.
  Time stamps are \<open>uint64\<close> nanoseconds. The methods carry the prefix \<open>LF_\<close>
  where the lock-protected engine has one of the same name. An index out of
  range and an integer division by zero are runtime panics: \<open>None\<close>.
\<close>

record UnackedEntry =
  entryPacket :: Packet
  SendTime :: "64 word"
  entryRetryCount :: "32 word"

type_synonym LockFreeHashTable = "UnackedEntry option list"

record LockFreeReliabilityLayer =
  lf_nextSeqNum :: "64 word"
  unackedTable :: LockFreeHashTable
  recvQueue :: "Packet list"
  orderBuffer :: "Packet option list"
  lf_windowSize :: "32 word"
  congWindow :: "32 word"
  rttEstimate :: "64 word"
  timeoutBase :: "64 word"
  packetsSent :: "64 word"
  packetsRecv :: "64 word"
  packetsLost :: "64 word"
  packetsRetr :: "64 word"

definition NewLockFreeReliabilityLayer :: LockFreeReliabilityLayer where
  "NewLockFreeReliabilityLayer =
     \<lparr> lf_nextSeqNum = 1,
       unackedTable = replicate 16384 None,
       recvQueue = [],
       orderBuffer = replicate 4096 None,
       lf_windowSize = 32,
       congWindow = 1,
       rttEstimate = 100000000,
       timeoutBase = 1000000000,
       packetsSent = 0,
       packetsRecv = 0,
       packetsLost = 0,
       packetsRetr = 0 \<rparr>"

definition table_mask :: "LockFreeHashTable \<Rightarrow> 64 word" where
  "table_mask ht = of_nat (length ht) - 1"

definition Insert :: "LockFreeHashTable \<Rightarrow> 64 word \<Rightarrow> UnackedEntry \<Rightarrow> (bool \<times> LockFreeHashTable) option" where
  "Insert ht key v =
     (let hash = unat (key AND table_mask ht)
      in if hash \<ge> length ht then None
         else if ht ! hash \<noteq> None then Some (False, ht)
         else Some (True, ht[hash := Some v]))"

definition Remove :: "LockFreeHashTable \<Rightarrow> 64 word \<Rightarrow> (UnackedEntry option \<times> LockFreeHashTable) option" where
  "Remove ht key =
     (let hash = unat (key AND table_mask ht)
      in if hash \<ge> length ht then None
         else case ht ! hash of
                None \<Rightarrow> Some (None, ht)
              | Some current \<Rightarrow> Some (Some current, ht[hash := None]))"

definition updateRTTAtomic :: "LockFreeReliabilityLayer \<Rightarrow> 64 word \<Rightarrow> LockFreeReliabilityLayer" where
  "updateRTTAtomic rf sampleRTT =
     (let oldRTT = rttEstimate rf;
          newRTT = (oldRTT * 7 + sampleRTT) div 8;
          newTimeout = newRTT * 4;
          newTimeout = (if newTimeout < 100000000 then 100000000 else newTimeout);
          newTimeout = (if newTimeout > 5000000000 then 5000000000 else newTimeout)
      in rf\<lparr>rttEstimate := newRTT, timeoutBase := newTimeout\<rparr>)"

definition updateCongestionWindow :: "LockFreeReliabilityLayer \<Rightarrow> bool \<Rightarrow> LockFreeReliabilityLayer option" where
  "updateCongestionWindow rf success =
     (if success then
        let oldWindow = congWindow rf
        in if oldWindow \<ge> lf_windowSize rf div 2 \<and> oldWindow = 0 then None
           else
             let newWindow = (if oldWindow < lf_windowSize rf div 2
                              then oldWindow + 1
                              else oldWindow + 1 div oldWindow);
                 newWindow = (if newWindow > lf_windowSize rf then lf_windowSize rf else newWindow)
             in Some (rf\<lparr>congWindow := newWindow\<rparr>)
      else
        let oldWindow = congWindow rf;
            newWindow = oldWindow div 2;
            newWindow = (if newWindow < 1 then 1 else newWindow)
        in Some (rf\<lparr>congWindow := newWindow\<rparr>))"

text \<open>
  The lock-free engine has no field for the slow-start threshold: the success
  branch of \<open>updateCongestionWindow\<close> is in slow start while the congestion
  window is below half the flow-control window.
\<close>

definition lf_ssthresh :: "LockFreeReliabilityLayer \<Rightarrow> 32 word" where
  "lf_ssthresh rf = lf_windowSize rf div 2"

text \<open>A run of \<open>n\<close> calls \<open>updateCongestionWindow(true)\<close>.\<close>

primrec grow_window :: "nat \<Rightarrow> LockFreeReliabilityLayer \<Rightarrow> LockFreeReliabilityLayer option" where
  "grow_window 0 rf = Some rf"
| "grow_window (Suc n) rf =
     (case updateCongestionWindow rf True of
        None \<Rightarrow> None
      | Some rf \<Rightarrow> grow_window n rf)"

definition LF_SendPacket ::
  "LockFreeReliabilityLayer \<Rightarrow> Packet \<Rightarrow> 64 word \<Rightarrow> (bool \<times> LockFreeReliabilityLayer) option" where
  "LF_SendPacket rf packet now =
     (if \<not> IsDataPacket packet then Some (True, rf)
      else
        let entry = \<lparr>entryPacket = packet, SendTime = now, entryRetryCount = 0\<rparr>
        in case Insert (unackedTable rf) (ucast (SeqNum packet)) entry of
             None \<Rightarrow> None
           | Some (success, ht) \<Rightarrow>
               if success
               then Some (True, rf\<lparr>unackedTable := ht, packetsSent := packetsSent rf + 1\<rparr>)
               else Some (False, rf\<lparr>unackedTable := ht\<rparr>))"

definition LF_HandleAck ::
  "LockFreeReliabilityLayer \<Rightarrow> Packet \<Rightarrow> 64 word \<Rightarrow> (bool \<times> LockFreeReliabilityLayer) option" where
  "LF_HandleAck rf ackPacket now =
     (if \<not> HasAck ackPacket then Some (False, rf)
      else
        let seqNum = AckNum ackPacket - 1
        in case Remove (unackedTable rf) (ucast seqNum) of
             None \<Rightarrow> None
           | Some (None, ht) \<Rightarrow> Some (False, rf\<lparr>unackedTable := ht\<rparr>)
           | Some (Some entry, ht) \<Rightarrow>
               let rf = rf\<lparr>unackedTable := ht\<rparr>;
                   rtt = now - SendTime entry;
                   rf = updateRTTAtomic rf rtt
               in case updateCongestionWindow rf True of
                    None \<Rightarrow> None
                  | Some rf \<Rightarrow> Some (True, rf))"

text \<open>
  \<open>isDuplicate\<close> and \<open>markReceived\<close> are the stubs of the source: the first
  answers \<open>false\<close> for every sequence number, the second does nothing.
\<close>

definition isDuplicate :: "LockFreeReliabilityLayer \<Rightarrow> 32 word \<Rightarrow> bool" where
  "isDuplicate rf seqNum = False"

definition markReceived :: "LockFreeReliabilityLayer \<Rightarrow> 32 word \<Rightarrow> LockFreeReliabilityLayer" where
  "markReceived rf seqNum = rf"

definition Enqueue :: "Packet list \<Rightarrow> Packet \<Rightarrow> bool \<times> Packet list" where
  "Enqueue q data = (True, q @ [data])"

definition Dequeue :: "Packet list \<Rightarrow> Packet option \<times> Packet list" where
  "Dequeue q = (case q of [] \<Rightarrow> (None, []) | data # rest \<Rightarrow> (Some data, rest))"

definition LF_ReceivePacket ::
  "LockFreeReliabilityLayer \<Rightarrow> Packet \<Rightarrow> bool \<times> LockFreeReliabilityLayer" where
  "LF_ReceivePacket rf packet =
     (if \<not> IsDataPacket packet then (True, rf)
      else if isDuplicate rf (SeqNum packet) then (False, rf)
      else
        case Enqueue (recvQueue rf) packet of
          (success, q) \<Rightarrow>
            if success
            then (True, markReceived (rf\<lparr>recvQueue := q, packetsRecv := packetsRecv rf + 1\<rparr>)
                                     (SeqNum packet))
            else (False, rf\<lparr>recvQueue := q\<rparr>))"

text \<open>The loop of the lock-free \<open>GetOrderedPackets\<close>: dequeue until the queue is empty.\<close>

function dequeue_loop :: "Packet list \<Rightarrow> Packet list \<Rightarrow> Packet list \<times> Packet list" where
  "dequeue_loop q orderedPackets =
     (case Dequeue q of
        (None, q') \<Rightarrow> (orderedPackets, q')
      | (Some packet, q') \<Rightarrow> dequeue_loop q' (orderedPackets @ [packet]))"
  by pat_completeness auto
termination
  by (relation "measure (\<lambda>(q, orderedPackets). length q)")
     (auto simp: Dequeue_def split: list.splits)

declare dequeue_loop.simps [simp del]

definition LF_GetOrderedPackets ::
  "LockFreeReliabilityLayer \<Rightarrow> Packet list \<times> LockFreeReliabilityLayer" where
  "LF_GetOrderedPackets rf =
     (case dequeue_loop (recvQueue rf) [] of
        (orderedPackets, q) \<Rightarrow> (orderedPackets, rf\<lparr>recvQueue := q\<rparr>))"

text \<open>
  The callback \<open>GetTimedOutPackets\<close> passes to \<open>ForEach\<close>, for the entry in
  bucket \<open>i\<close>: when the entry has timed out it is appended to the result, its
  retry count and the retransmission counter are incremented, its send time is
  set to \<open>now\<close>, and the congestion window is reduced.
\<close>

definition timeout_visit ::
  "64 word \<Rightarrow> 64 word \<Rightarrow> nat \<Rightarrow> UnackedEntry \<Rightarrow> LockFreeReliabilityLayer \<times> Packet list
     \<Rightarrow> (LockFreeReliabilityLayer \<times> Packet list) option" where
  "timeout_visit now timeout i entry st =
     (case st of (rf, timedOut) \<Rightarrow>
        if now - SendTime entry > timeout
        then
          let timedOut = timedOut @ [entryPacket entry];
              entry = entry\<lparr>entryRetryCount := entryRetryCount entry + 1\<rparr>;
              rf = rf\<lparr>packetsRetr := packetsRetr rf + 1\<rparr>;
              entry = entry\<lparr>SendTime := now\<rparr>;
              rf = rf\<lparr>unackedTable := (unackedTable rf)[i := Some entry]\<rparr>
          in case updateCongestionWindow rf False of
               None \<Rightarrow> None
             | Some rf \<Rightarrow> Some (rf, timedOut)
        else Some (rf, timedOut))"

text \<open>\<open>ForEach\<close> with that callback, over the bucket indices still to visit.\<close>

fun ForEach_timeout ::
  "64 word \<Rightarrow> 64 word \<Rightarrow> nat list \<Rightarrow> LockFreeReliabilityLayer \<times> Packet list
     \<Rightarrow> (LockFreeReliabilityLayer \<times> Packet list) option" where
  "ForEach_timeout now timeout [] st = Some st"
| "ForEach_timeout now timeout (i # rest) st =
     (if i \<ge> length (unackedTable (fst st)) then None
      else case unackedTable (fst st) ! i of
             None \<Rightarrow> ForEach_timeout now timeout rest st
           | Some entry \<Rightarrow>
               (case timeout_visit now timeout i entry st of
                  None \<Rightarrow> None
                | Some st' \<Rightarrow> ForEach_timeout now timeout rest st'))"

definition LF_GetTimedOutPackets ::
  "LockFreeReliabilityLayer \<Rightarrow> 64 word \<Rightarrow> (Packet list \<times> LockFreeReliabilityLayer) option" where
  "LF_GetTimedOutPackets rf now =
     (let timeout = timeoutBase rf
      in case ForEach_timeout now timeout [0..<length (unackedTable rf)] (rf, []) of
           None \<Rightarrow> None
         | Some (rf, timedOut) \<Rightarrow>
             let rf = (if length timedOut > 0
                       then rf\<lparr>packetsLost := packetsLost rf + of_nat (length timedOut)\<rparr>
                       else rf)
             in Some (timedOut, rf))"

text \<open>
  The bounds the lock-free engine keeps on its congestion window: at least 1 and
  at most the flow-control window (which no method writes).
\<close>

definition window_bounded :: "LockFreeReliabilityLayer \<Rightarrow> bool" where
  "window_bounded rf \<longleftrightarrow> 1 \<le> congWindow rf \<and> congWindow rf \<le> lf_windowSize rf"

subsection \<open>What the scan does to one bucket\<close>


definition visit_bucket :: "64 word \<Rightarrow> 64 word \<Rightarrow> UnackedEntry option \<Rightarrow> UnackedEntry option" where
  "visit_bucket now timeout bucket =
     (case bucket of
        None \<Rightarrow> None
      | Some entry \<Rightarrow>
          if now - SendTime entry > timeout
          then Some (entry\<lparr>entryRetryCount := entryRetryCount entry + 1, SendTime := now\<rparr>)
          else Some entry)"

definition visit_packet :: "64 word \<Rightarrow> 64 word \<Rightarrow> UnackedEntry option \<Rightarrow> Packet list" where
  "visit_packet now timeout bucket =
     (case bucket of
        None \<Rightarrow> []
      | Some entry \<Rightarrow> if now - SendTime entry > timeout then [entryPacket entry] else [])"

definition visit_packets :: "64 word \<Rightarrow> 64 word \<Rightarrow> LockFreeHashTable \<Rightarrow> Packet list" where
  "visit_packets now timeout ht = concat (map (visit_packet now timeout) ht)"

subsection \<open>What a scan for timed-out packets is to do\<close>

text \<open>
  The scan in the words of the specification. The age of a tracked entry at a
  clock reading is the time elapsed since it was sent: the difference of the two
  numbers of nanoseconds, negative for an entry sent after the reading. An entry
  has timed out when its age exceeds the timeout. A scan returns the packets of
  the entries that have timed out, and refreshes each returned entry: its send
  time becomes the scan time and its retry counter (32 bits wide) is
  incremented.
  \<open>sent_by now\<close> says that no tracked entry was sent after the clock reading
  \<open>now\<close>.
\<close>

definition age :: "64 word \<Rightarrow> UnackedEntry \<Rightarrow> int" where
  "age now entry = uint now - uint (SendTime entry)"





section \<open>Engine states and packets the properties are evaluated at\<close>

text \<open>
  The packets and calls of the repository's tests: data packets with a given
  sequence number, the three receives of \<open>TestPacketOrdering\<close>, the
  acknowledgment for a sequence number, an engine with packet 100 sent but no
  sequence number allocated (\<open>AcknowledgmentHandling\<close>), an engine that sent
  the sequence number it allocated, and an engine whose ordering buffer is full
  (\<open>BufferOverflow\<close>).
\<close>

definition data_packet :: "32 word \<Rightarrow> Packet" where
  "data_packet seqNum = NewPacket DATA_PACKET 0 seqNum 0 [112, 97, 99, 107, 101, 116]"


definition receive_503_501_502 :: "ReliabilityLayer \<Rightarrow> ReliabilityLayer" where
  "receive_503_501_502 r =
     (let r = snd (ReceivePacket r (data_packet 503));
          r = snd (ReceivePacket r (data_packet 501));
          r = snd (ReceivePacket r (data_packet 502))
      in r)"


definition ack_for :: "32 word \<Rightarrow> Packet" where
  "ack_for seqNum = NewPacket ACK_PACKET ACK_FLAG 0 (seqNum + 1) []"


definition in_flight_100 :: ReliabilityLayer where
  "in_flight_100 = SendPacket NewReliabilityLayer (data_packet 100) 0"


definition in_flight_allocated :: ReliabilityLayer where
  "in_flight_allocated =
     (case GetNextSeqNum NewReliabilityLayer of (seqNum, r) \<Rightarrow> SendPacket r (data_packet seqNum) 0)"


definition full_buffer_engine :: ReliabilityLayer where
  "full_buffer_engine =
     (let r = SetMaxBufferSize NewReliabilityLayer 2;
          r = snd (ReceivePacket r (data_packet 900));
          r = snd (ReceivePacket r (data_packet 901))
      in r)"

text \<open>The lock-free engine after data packet 200 was sent at time 0.\<close>

definition lf_in_flight_200 :: LockFreeReliabilityLayer where
  "lf_in_flight_200 =
     NewLockFreeReliabilityLayer
       \<lparr>unackedTable := (replicate 16384 None)
          [200 := Some \<lparr>entryPacket = data_packet 200, SendTime = 0, entryRetryCount = 0\<rparr>],
        packetsSent := 1\<rparr>"

text \<open>
  Both engines with a congestion window of 8: the lock-protected one after seven
  calls of \<open>handleSuccessfulAck\<close> on the fresh engine, the lock-free one after
  seven calls \<open>updateCongestionWindow(true)\<close>.
\<close>

definition window_8 :: ReliabilityLayer where
  "window_8 = (handleSuccessfulAck ^^ 7) NewReliabilityLayer"

definition lf_window_8 :: LockFreeReliabilityLayer where
  "lf_window_8 = NewLockFreeReliabilityLayer\<lparr>congWindow := 8\<rparr>"
section \<open>Properties of the codec\<close>

lemma unpack_wrong_version_and_length:
  "unpack_header wrong_version_and_length =
     \<lparr>Version = 2, Type = 1, Flags = 0, Length = 17, SeqNum = 0, AckNum = 0,
      Checksum = 0, Payload = []\<rparr>"
  by (simp add: unpack_header_def wrong_version_and_length_def load_u16_def load_u32_def
        ntohs_def ntohl_def)

text \<open>
  C3, as the code has it. \<open>DeserializePacket\<close> checks the input in the order:
  too short, declared length against the slice length, protocol version,
  checksum. The length check comes before the version check, so an input of at
  least header size whose version field is wrong and whose declared length
  disagrees with the slice length fails with the length-mismatch error.
\<close>

theorem DeserializePacket_check_order:
  "(length data < PACKET_HEADER_SIZE \<longrightarrow> DeserializePacket data = Inl PacketTooShort) \<and>
   (PACKET_HEADER_SIZE \<le> length data \<and> unat (Length (unpack_header data)) \<noteq> length data
      \<longrightarrow> DeserializePacket data = Inl PacketLengthMismatch) \<and>
   (PACKET_HEADER_SIZE \<le> length data \<and> unat (Length (unpack_header data)) = length data \<and>
    Version (unpack_header data) \<noteq> PROTOCOL_VERSION
      \<longrightarrow> DeserializePacket data = Inl UnsupportedProtocolVersion) \<and>
   (PACKET_HEADER_SIZE \<le> length data \<and> unat (Length (unpack_header data)) = length data \<and>
    Version (unpack_header data) = PROTOCOL_VERSION \<and>
    Checksum (unpack_header data) \<noteq>
      calculateChecksum (take 12 data) (drop PACKET_HEADER_SIZE data)
      \<longrightarrow> DeserializePacket data = Inl ChecksumMismatch)"
  by (simp add: DeserializePacket_def Let_def)

theorem DeserializePacket_check_order_witness:
  "DeserializePacket [] = Inl PacketTooShort \<and>
   (PACKET_HEADER_SIZE \<le> length wrong_version_and_length \<and>
    unat (Length (unpack_header wrong_version_and_length)) \<noteq> length wrong_version_and_length \<and>
    Version (unpack_header wrong_version_and_length) \<noteq> PROTOCOL_VERSION \<and>
    DeserializePacket wrong_version_and_length = Inl PacketLengthMismatch) \<and>
   DeserializePacket [0x21, 0, 0, 16, 0, 0, 0, 0, 0, 0, 0, 0, 0, 0, 0, 0]
     = Inl UnsupportedProtocolVersion \<and>
   DeserializePacket [0x11, 0, 0, 16, 0, 0, 0, 0, 0, 0, 0, 0, 0, 0, 0, 0]
     = Inl ChecksumMismatch"
proof -
  let ?v = "[0x21, 0, 0, 16, 0, 0, 0, 0, 0, 0, 0, 0, 0, 0, 0, 0] :: byte list"
  let ?c = "[0x11, 0, 0, 16, 0, 0, 0, 0, 0, 0, 0, 0, 0, 0, 0, 0] :: byte list"
  have short: "length ([] :: byte list) < PACKET_HEADER_SIZE"
    by (simp add: PACKET_HEADER_SIZE_def)
  have len: "length wrong_version_and_length = 16"
    by (simp add: wrong_version_and_length_def)
  have h: "PACKET_HEADER_SIZE \<le> length wrong_version_and_length \<and>
      unat (Length (unpack_header wrong_version_and_length)) \<noteq> length wrong_version_and_length"
    by (simp add: unpack_wrong_version_and_length len PACKET_HEADER_SIZE_def)
  have v: "Version (unpack_header wrong_version_and_length) \<noteq> PROTOCOL_VERSION"
    by (simp add: unpack_wrong_version_and_length PROTOCOL_VERSION_def)
  have uv: "unpack_header ?v =
      \<lparr>Version = 2, Type = 1, Flags = 0, Length = 16, SeqNum = 0, AckNum = 0,
       Checksum = 0, Payload = []\<rparr>"
    by (simp add: unpack_header_def load_u16_def load_u32_def ntohs_def ntohl_def)
  have hv: "PACKET_HEADER_SIZE \<le> length ?v \<and> unat (Length (unpack_header ?v)) = length ?v \<and>
      Version (unpack_header ?v) \<noteq> PROTOCOL_VERSION"
    unfolding uv by (simp add: PACKET_HEADER_SIZE_def PROTOCOL_VERSION_def)
  have uc: "unpack_header ?c =
      \<lparr>Version = 1, Type = 1, Flags = 0, Length = 16, SeqNum = 0, AckNum = 0,
       Checksum = 0, Payload = []\<rparr>"
    by (simp add: unpack_header_def load_u16_def load_u32_def ntohs_def ntohl_def)
  have cs: "calculateChecksum (take 12 ?c) (drop PACKET_HEADER_SIZE ?c) = 4294962927"
    by (simp add: calculateChecksum_def PACKET_HEADER_SIZE_def load_u32_def ntohl_def
          fold_carry.simps)
  have hc: "PACKET_HEADER_SIZE \<le> length ?c \<and> unat (Length (unpack_header ?c)) = length ?c \<and>
      Version (unpack_header ?c) = PROTOCOL_VERSION \<and>
      Checksum (unpack_header ?c) \<noteq>
        calculateChecksum (take 12 ?c) (drop PACKET_HEADER_SIZE ?c)"
    unfolding uc cs by (simp add: PACKET_HEADER_SIZE_def PROTOCOL_VERSION_def)
  from DeserializePacket_check_order [of "[]"] short
  have 1: "DeserializePacket [] = Inl PacketTooShort" by blast
  from DeserializePacket_check_order [of wrong_version_and_length] h
  have 2: "DeserializePacket wrong_version_and_length = Inl PacketLengthMismatch" by blast
  from DeserializePacket_check_order [of ?v] hv
  have 3: "DeserializePacket ?v = Inl UnsupportedProtocolVersion" by blast
  from DeserializePacket_check_order [of ?c] hc
  have 4: "DeserializePacket ?c = Inl ChecksumMismatch" by blast
  from 1 2 3 4 h v show ?thesis by blast
qed

text \<open>
  C3, as the claim states it, fails: on a 16-byte input with a wrong version and a
  declared length of 17 the code reports the length mismatch, not the unsupported
  version.
\<close>

theorem DeserializePacket_version_first_counterexample:
  "PACKET_HEADER_SIZE \<le> length wrong_version_and_length \<and>
   Version (unpack_header wrong_version_and_length) \<noteq> PROTOCOL_VERSION \<and>
   unat (Length (unpack_header wrong_version_and_length)) \<noteq> length wrong_version_and_length \<and>
   DeserializePacket wrong_version_and_length \<noteq> Inl UnsupportedProtocolVersion \<and>
   DeserializePacket wrong_version_and_length = Inl PacketLengthMismatch"
  by (simp add: DeserializePacket_def unpack_wrong_version_and_length PACKET_HEADER_SIZE_def
        PROTOCOL_VERSION_def)
     (simp add: wrong_version_and_length_def)

subsection \<open>Round trip\<close>

lemma join_u32: 
  "ucast (ucast v :: byte) OR push_bit 8 (ucast (ucast (drop_bit 8 v) :: byte)) OR
   push_bit 16 (ucast (ucast (drop_bit 16 v) :: byte)) OR
   push_bit 24 (ucast (ucast (drop_bit 24 v) :: byte)) = (v :: 32 word)"
proof (rule bit_word_eqI)
  fix n assume "n < LENGTH(32)"
  then show "bit (ucast (ucast v :: byte) OR push_bit 8 (ucast (ucast (drop_bit 8 v) :: byte)) OR
   push_bit 16 (ucast (ucast (drop_bit 16 v) :: byte)) OR
   push_bit 24 (ucast (ucast (drop_bit 24 v) :: byte)) :: 32 word) n = bit v n"
    by (cases "n < 8"; cases "n < 16"; cases "n < 24") (auto simp: bit_simps)
qed

lemma join_u16:
  "ucast (ucast v :: byte) OR push_bit 8 (ucast (ucast (drop_bit 8 v) :: byte)) = (v :: 16 word)"
proof (rule bit_word_eqI)
  fix n assume "n < LENGTH(16)"
  then show "bit (ucast (ucast v :: byte) OR push_bit 8 (ucast (ucast (drop_bit 8 v) :: byte)) :: 16 word) n
     = bit v n"
    by (cases "n < 8") (auto simp: bit_simps)
qed

lemma mask_consts32:
  "(0xff :: 32 word) = mask 8"
  "(0xff00 :: 32 word) = push_bit 8 (mask 8)"
  "(0xff0000 :: 32 word) = push_bit 16 (mask 8)"
  "(0xff000000 :: 32 word) = push_bit 24 (mask 8)"
  by (simp_all add: mask_eq_exp_minus_1 push_bit_eq_mult)

lemma ntohl_htonl: "ntohl (htonl w) = w"
  unfolding htonl_def ntohl_def mask_consts32
proof (rule bit_word_eqI)
  fix n assume n: "n < LENGTH(32)"
  let ?h = "push_bit 24 (w AND mask 8) OR push_bit 8 (w AND push_bit 8 (mask 8)) OR
       drop_bit 8 (w AND push_bit 16 (mask 8)) OR drop_bit 24 (w AND push_bit 24 (mask 8))"
  show "bit (push_bit 24 (?h AND mask 8) OR push_bit 8 (?h AND push_bit 8 (mask 8)) OR
       drop_bit 8 (?h AND push_bit 16 (mask 8)) OR drop_bit 24 (?h AND push_bit 24 (mask 8))) n = bit w n"
    using n by (cases "n < 8"; cases "n < 16"; cases "n < 24") (auto simp: bit_simps)
qed

lemma mask_consts16: "(0xff00 :: 16 word) = push_bit 8 (mask 8)" "(0xff :: 16 word) = mask 8"
  by (simp_all add: mask_eq_exp_minus_1 push_bit_eq_mult)

lemma ntohs_htons: "ntohs (htons w) = w"
  unfolding htons_def ntohs_def mask_consts16
proof (rule bit_word_eqI)
  fix n assume "n < LENGTH(16)"
  then show "bit (push_bit 8 (push_bit 8 w AND push_bit 8 (mask 8) OR drop_bit 8 w AND mask 8) AND
          push_bit 8 (mask 8) OR
          drop_bit 8 (push_bit 8 w AND push_bit 8 (mask 8) OR drop_bit 8 w AND mask 8) AND mask 8) n = bit w n"
    by (cases "n < 8") (auto simp: bit_simps)
qed

lemma load_u16_bytes: "load_u16 (a # b # bytes_u16 v @ rest) 2 = v"
  by (simp add: load_u16_def bytes_u16_def join_u16)

lemma load_u32_bytes_4: "load_u32 (b0 # b1 # b2 # b3 # bytes_u32 v @ rest) 4 = v"
  by (simp add: load_u32_def bytes_u32_def join_u32)

lemma load_u32_bytes_8:
  "load_u32 (b0 # b1 # b2 # b3 # b4 # b5 # b6 # b7 # bytes_u32 v @ rest) 8 = v"
  by (simp add: load_u32_def bytes_u32_def join_u32)

lemma load_u32_bytes_12:
  "load_u32 (b0 # b1 # b2 # b3 # b4 # b5 # b6 # b7 # b8 # b9 # b10 # b11 # bytes_u32 v @ rest) 12 = v"
  by (simp add: load_u32_def bytes_u32_def join_u32)

lemma unpack_header_wire:
  "unpack_header (wire b0 fl L s a c pl) =
     \<lparr>Version = drop_bit 4 b0 AND 0x0F, Type = b0 AND 0x0F, Flags = fl, Length = L,
      SeqNum = s, AckNum = a, Checksum = c, Payload = []\<rparr>"
proof -
  have l: "load_u16 (wire b0 fl L s a c pl) 2 = htons L"
    unfolding wire_def by (simp add: load_u16_bytes)
  have s: "load_u32 (wire b0 fl L s a c pl) 4 = htonl s"
    unfolding wire_def by (simp add: bytes_u16_def load_u32_bytes_4)
  have a: "load_u32 (wire b0 fl L s a c pl) 8 = htonl a"
    unfolding wire_def bytes_u16_def 
    by (simp add: bytes_u32_def [of "htonl s"] load_u32_bytes_8)
  have c: "load_u32 (wire b0 fl L s a c pl) 12 = htonl c"
    unfolding wire_def bytes_u16_def 
    by (simp add: bytes_u32_def [of "htonl s"] bytes_u32_def [of "htonl a"] load_u32_bytes_12)
  have b: "wire b0 fl L s a c pl ! 0 = b0" "wire b0 fl L s a c pl ! 1 = fl"
    by (simp_all add: wire_def)
  show ?thesis
    unfolding unpack_header_def Let_def l s a c b
    by (simp add: ntohs_htons ntohl_htonl)
qed

lemma wire_parts:
  "length (wire b0 fl L s a c pl) = 16 + length pl"
  "drop 16 (wire b0 fl L s a c pl) = pl"
  "take 12 (wire b0 fl L s a c pl) = [b0, fl] @ bytes_u16 (htons L) @ bytes_u32 (htonl s) @ bytes_u32 (htonl a)"
  by (simp_all add: wire_def bytes_u16_def bytes_u32_def)


lemma copy_bytes_same_length: "length src = n \<Longrightarrow> copy_bytes (replicate n 0) src = src"
  by (simp add: copy_bytes_def)

lemma DeserializePacket_wire:
  assumes L: "unat L = 16 + length pl"
  shows "DeserializePacket (wire b0 fl L s a c pl) =
     (if drop_bit 4 b0 AND 0x0F \<noteq> PROTOCOL_VERSION then Inl UnsupportedProtocolVersion
      else if c \<noteq> calculateChecksum (take 12 (wire b0 fl L s a c pl)) pl then Inl ChecksumMismatch
      else Inr \<lparr>Version = drop_bit 4 b0 AND 0x0F, Type = b0 AND 0x0F, Flags = fl, Length = L,
                SeqNum = s, AckNum = a, Checksum = c, Payload = pl\<rparr>)"
proof -
  have ge: "(16 :: 16 word) \<le> L"
    using L by (simp add: word_le_nat_alt)
  have gt: "(16 < L) = (pl \<noteq> [])"
    using L by (auto simp add: word_less_nat_alt)
  have sub: "unat (L - 16) = length pl"
    using L ge by (simp add: unat_sub)
  show ?thesis
    unfolding DeserializePacket_def Let_def unpack_header_wire
    by (simp add: wire_parts PACKET_HEADER_SIZE_def L gt sub copy_bytes_same_length)
qed

lemma zeros16: "replicate (16 + m) (0::byte) = [0,0,0,0,0,0,0,0,0,0,0,0,0,0,0,0] @ replicate m 0"
  by (simp add: replicate_add numeral_eq_Suc)

lemma Serialize_wire:
  assumes "unat (Length p) = 16 + length (Payload p)"
  shows "Serialize p = Some
     (wire (push_bit 4 (Version p) OR (Type p AND 0x0F)) (Flags p) (Length p) (SeqNum p) (AckNum p)
        (calculateChecksum (header12 p) (Payload p)) (Payload p),
      p\<lparr>Checksum := calculateChecksum (header12 p) (Payload p)\<rparr>)"
  unfolding Serialize_def Let_def
  apply (simp only: assms zeros16)
  apply (simp add: PACKET_HEADER_SIZE_def store_u16_def store_u32_def bytes_u16_def bytes_u32_def
      copy_bytes_def wire_def header12_def)
  done

lemma NewPacket_fields:
  "Version (NewPacket t f s a pl) = PROTOCOL_VERSION"
  "Type (NewPacket t f s a pl) = t"
  "Flags (NewPacket t f s a pl) = f"
  "SeqNum (NewPacket t f s a pl) = s"
  "AckNum (NewPacket t f s a pl) = a"
  "Checksum (NewPacket t f s a pl) = 0"
  "Payload (NewPacket t f s a pl) = take MAX_PAYLOAD_SIZE pl"
  "Length (NewPacket t f s a pl) = of_nat (PACKET_HEADER_SIZE + min (length pl) MAX_PAYLOAD_SIZE)"
  by (simp_all add: NewPacket_def Let_def min_def)

lemma NewPacket_Length:
  "unat (Length (NewPacket t f s a pl)) = 16 + length (Payload (NewPacket t f s a pl))"
proof -
  have "PACKET_HEADER_SIZE + min (length pl) MAX_PAYLOAD_SIZE < 2 ^ LENGTH(16)"
    by (simp add: PACKET_HEADER_SIZE_def MAX_PAYLOAD_SIZE_def)
  then have "unat (of_nat (PACKET_HEADER_SIZE + min (length pl) MAX_PAYLOAD_SIZE) :: 16 word)
      = PACKET_HEADER_SIZE + min (length pl) MAX_PAYLOAD_SIZE"
    by (rule of_nat_inverse [OF refl])
  then show ?thesis
    by (simp add: NewPacket_fields PACKET_HEADER_SIZE_def)
qed

lemma version_nibble: "drop_bit 4 (push_bit 4 PROTOCOL_VERSION OR (t AND 0x0F)) AND 0x0F = PROTOCOL_VERSION"
proof -
  have m: "(0x0F :: 8 word) = mask 4" by (simp add: mask_eq_exp_minus_1)
  show ?thesis
    unfolding PROTOCOL_VERSION_def m
    by (rule bit_word_eqI) (auto simp: bit_simps)
qed

lemma type_nibble: "(push_bit 4 v OR (t AND 0x0F)) AND 0x0F = t AND (0x0F :: 8 word)"
proof -
  have m: "(0x0F :: 8 word) = mask 4" by (simp add: mask_eq_exp_minus_1)
  show ?thesis
    unfolding m
    by (rule bit_word_eqI) (auto simp: bit_simps)
qed

lemma low_nibble_id: "t < 16 \<Longrightarrow> t AND 0x0F = (t :: 8 word)"
proof -
  assume "t < 16"
  then have "t < 2 ^ 4" by simp
  then have "t AND mask 4 = t" by (rule less_mask_eq)
  moreover have "(0x0F :: 8 word) = mask 4" by (simp add: mask_eq_exp_minus_1)
  ultimately show ?thesis by simp
qed

text \<open>
  C2. For every valid packet type, that is every type that fits the 4-bit type
  field of the wire format (the five defined types are 1 to 5), and for every
  flags byte, sequence number, acknowledgment number and payload, serializing a
  newly constructed packet succeeds, and deserializing the bytes succeeds and
  reproduces every field of the packet: version, type, flags, length, sequence
  number, acknowledgment number, checksum (the one \<open>Serialize\<close> computed and
  stored in the packet), and the payload, which is the input payload truncated
  to 1400 bytes.
\<close>

theorem Serialize_Deserialize_roundtrip:
  assumes "packetType < 16"
  shows "\<exists>data p.
     Serialize (NewPacket packetType flags seqNum ackNum payload) = Some (data, p) \<and>
     DeserializePacket data = Inr p \<and>
     Version p = PROTOCOL_VERSION \<and> Type p = packetType \<and> Flags p = flags \<and>
     Length p = of_nat (PACKET_HEADER_SIZE + min (length payload) MAX_PAYLOAD_SIZE) \<and>
     unat (Length p) = length data \<and>
     SeqNum p = seqNum \<and> AckNum p = ackNum \<and>
     Checksum p = calculateChecksum (take 12 data) (drop PACKET_HEADER_SIZE data) \<and>
     Payload p = take MAX_PAYLOAD_SIZE payload"
proof -
  let ?np = "NewPacket packetType flags seqNum ackNum payload"
  let ?cs = "calculateChecksum (header12 ?np) (Payload ?np)"
  let ?b0 = "push_bit 4 (Version ?np) OR (Type ?np AND 0x0F)"
  let ?data = "wire ?b0 (Flags ?np) (Length ?np) (SeqNum ?np) (AckNum ?np) ?cs (Payload ?np)"
  let ?p = "?np\<lparr>Checksum := ?cs\<rparr>"
  have ser: "Serialize ?np = Some (?data, ?p)"
    by (rule Serialize_wire [OF NewPacket_Length])
  have hdr: "take 12 ?data = header12 ?np"
    by (simp add: wire_parts header12_def)
  have v: "drop_bit 4 ?b0 AND 0x0F = PROTOCOL_VERSION"
    unfolding NewPacket_fields by (rule version_nibble)
  have t: "?b0 AND 0x0F = packetType"
    unfolding type_nibble NewPacket_fields using assms by (rule low_nibble_id)
  have "DeserializePacket ?data =
      Inr \<lparr>Version = PROTOCOL_VERSION, Type = packetType, Flags = Flags ?np, Length = Length ?np,
           SeqNum = SeqNum ?np, AckNum = AckNum ?np, Checksum = ?cs, Payload = Payload ?np\<rparr>"
    unfolding DeserializePacket_wire [OF NewPacket_Length] hdr v t by simp
  also have "\<dots> = Inr ?p"
    by (simp add: NewPacket_fields)
  finally have de: "DeserializePacket ?data = Inr ?p" .
  have len: "unat (Length ?p) = length ?data"
    by (simp add: wire_parts NewPacket_Length)
  have cs: "Checksum ?p = calculateChecksum (take 12 ?data) (drop PACKET_HEADER_SIZE ?data)"
    unfolding hdr by (simp add: PACKET_HEADER_SIZE_def wire_parts)
  from ser de len cs show ?thesis
    by (intro exI [of _ ?data] exI [of _ ?p]) (simp add: NewPacket_fields)
qed

theorem Serialize_Deserialize_roundtrip_witness:
  "(1 :: 8 word) < 16 \<and>
   (\<exists>data p.
     Serialize (NewPacket 1 0 1000 2000 [1, 2, 3]) = Some (data, p) \<and>
     DeserializePacket data = Inr p \<and> Type p = 1 \<and> SeqNum p = 1000 \<and> AckNum p = 2000 \<and>
     Payload p = [1, 2, 3])"
proof -
  have h: "(1 :: 8 word) < 16" by simp
  from Serialize_Deserialize_roundtrip [OF h, of 0 1000 2000 "[1, 2, 3]"]
  show ?thesis using h by (auto simp add: MAX_PAYLOAD_SIZE_def)
qed

section \<open>Properties of the engines\<close>

subsection \<open>C1: release order on a fresh engine\<close>

lemma data_packet_SeqNum: "SeqNum (data_packet s) = s"
  by (simp add: data_packet_def NewPacket_def)

lemma data_packet_IsData: "IsDataPacket (data_packet s)"
  by (simp add: data_packet_def NewPacket_def IsDataPacket_def)

lemma receive_503_501_502_state:
  assumes "orderingBuffer r = Map.empty" "receivedSeqs r = Map.empty" "maxBufferSize r = 1000"
  shows "receive_503_501_502 r =
     r\<lparr>receivedSeqs := [503 \<mapsto> True, 501 \<mapsto> True, 502 \<mapsto> True],
       orderingBuffer := [503 \<mapsto> data_packet 503, 501 \<mapsto> data_packet 501,
                          502 \<mapsto> data_packet 502]\<rparr>"
  using assms
  by (simp add: receive_503_501_502_def ReceivePacket_def IsPacketDuplicate_def
        MarkPacketReceived_def data_packet_SeqNum Let_def)

text \<open>
  C1: on a freshly created engine, receiving the data packets 503, 501, 502 and
  then calling \<open>GetOrderedPackets\<close> should release 501, 502, 503. The code
  releases nothing: a fresh engine expects sequence number 1 next, the buffer
  has no entry for it, and the loop of \<open>GetOrderedPackets\<close> stops at once.
  \<open>TestPacketOrdering\<close> expects the three packets.
\<close>

theorem ordering_fresh_engine_releases_nothing:
  "fst (ReceivePacket NewReliabilityLayer (data_packet 503)) = None \<and>
   fst (ReceivePacket (snd (ReceivePacket NewReliabilityLayer (data_packet 503)))
          (data_packet 501)) = None \<and>
   fst (GetOrderedPackets (receive_503_501_502 NewReliabilityLayer)) = [] \<and>
   nextExpectedSeq NewReliabilityLayer = 1"
  by (simp add: receive_503_501_502_def GetOrderedPackets_def ReceivePacket_def
        NewReliabilityLayer_def IsPacketDuplicate_def MarkPacketReceived_def data_packet_SeqNum
        ordered_loop.simps Let_def)

text \<open>When the engine does expect 501 next, the same receives are released in order.\<close>

lemma ordering_from_501:
  "map SeqNum (fst (GetOrderedPackets
      (receive_503_501_502 (NewReliabilityLayer\<lparr>nextExpectedSeq := 501\<rparr>)))) = [501, 502, 503]"
  by (simp add: receive_503_501_502_def GetOrderedPackets_def ReceivePacket_def
        NewReliabilityLayer_def IsPacketDuplicate_def MarkPacketReceived_def data_packet_SeqNum
        ordered_loop.simps Let_def)

subsection \<open>C4: duplicates\<close>

text \<open>
  C4: a data packet whose sequence number was already received should never be
  delivered a second time, in both engines. The lock-free engine delivers it
  twice: its \<open>isDuplicate\<close> answers \<open>false\<close> for every sequence number, so the
  second receive of data packet 5 is queued as well and the drain returns both.
\<close>

theorem lock_free_duplicate_delivered_twice:
  "IsDataPacket (data_packet 5) \<and>
   LF_ReceivePacket NewLockFreeReliabilityLayer (data_packet 5) =
     (True, NewLockFreeReliabilityLayer\<lparr>recvQueue := [data_packet 5], packetsRecv := 1\<rparr>) \<and>
   LF_ReceivePacket (NewLockFreeReliabilityLayer\<lparr>recvQueue := [data_packet 5], packetsRecv := 1\<rparr>)
       (data_packet 5) =
     (True, NewLockFreeReliabilityLayer\<lparr>recvQueue := [data_packet 5, data_packet 5],
              packetsRecv := 2\<rparr>) \<and>
   fst (LF_GetOrderedPackets
     (NewLockFreeReliabilityLayer\<lparr>recvQueue := [data_packet 5, data_packet 5], packetsRecv := 2\<rparr>))
     = [data_packet 5, data_packet 5]"
  by (simp add: LF_ReceivePacket_def LF_GetOrderedPackets_def isDuplicate_def markReceived_def
        Enqueue_def Dequeue_def dequeue_loop.simps NewLockFreeReliabilityLayer_def
        IsDataPacket_def data_packet_def NewPacket_def)

text \<open>
  The lock-protected engine does what C4 asks: over every run of receives and
  drains from a fresh engine, the packets handed to the application have pairwise
  different sequence numbers.
\<close>

lemma ordered_loop_spec:
  assumes "\<forall>k p. buffer k = Some p \<longrightarrow> SeqNum p = k"
  shows "\<exists>new buffer' next'.
           ordered_loop buffer next acc = (acc @ new, buffer', next') \<and>
           distinct (map SeqNum new) \<and>
           set (map SeqNum new) \<subseteq> dom buffer \<and>
           dom buffer' = dom buffer - set (map SeqNum new) \<and>
           (\<forall>k \<in> dom buffer'. buffer' k = buffer k)"
  using assms
proof (induction buffer "next" acc rule: ordered_loop.induct)
  case (1 buffer "next" acc)
  show ?case
  proof (cases "buffer next")
    case None
    then have "ordered_loop buffer next acc = (acc @ [], buffer, next)"
      by (simp add: ordered_loop.simps)
    then show ?thesis by fastforce
  next
    case (Some packet)
    have keyed: "\<forall>k p. (buffer(next := None)) k = Some p \<longrightarrow> SeqNum p = k"
      using "1.prems" by simp
    from "1.IH" [OF Some keyed] obtain new buffer' next' where
      run: "ordered_loop (buffer(next := None)) (next + 1) (acc @ [packet])
              = ((acc @ [packet]) @ new, buffer', next')"
      and d: "distinct (map SeqNum new)"
      and sub: "set (map SeqNum new) \<subseteq> dom (buffer(next := None))"
      and dm: "dom buffer' = dom (buffer(next := None)) - set (map SeqNum new)"
      and same: "\<forall>k \<in> dom buffer'. buffer' k = (buffer(next := None)) k"
      by blast
    have sq: "SeqNum packet = next" using "1.prems" Some by blast
    have nin: "next \<notin> set (map SeqNum new)" using sub by auto
    have "ordered_loop buffer next acc = (acc @ (packet # new), buffer', next')"
      using Some run by (subst ordered_loop.simps) simp
    moreover have "distinct (map SeqNum (packet # new))"
      using d nin sq by simp
    moreover have "set (map SeqNum (packet # new)) \<subseteq> dom buffer"
      using sub Some sq by auto
    moreover have "dom buffer' = dom buffer - set (map SeqNum (packet # new))"
      using dm sq by auto
    moreover have "\<forall>k \<in> dom buffer'. buffer' k = buffer k"
      using same dm by (auto split: if_splits)
    ultimately show ?thesis by blast
  qed
qed

lemma ReceivePacket_inv:
  assumes "receive_inv r delivered"
  shows "receive_inv (snd (ReceivePacket r packet)) delivered"
proof (cases "int (card (dom (orderingBuffer r))) \<ge> maxBufferSize r \<or> IsPacketDuplicate r packet")
  case True
  then have "snd (ReceivePacket r packet) = r"
    by (auto simp add: ReceivePacket_def Let_def)
  with assms show ?thesis by simp
next
  case False
  then have new: "receivedSeqs r (SeqNum packet) \<noteq> Some True"
    by (auto simp add: IsPacketDuplicate_def split: option.splits)
  have r': "snd (ReceivePacket r packet) =
      r\<lparr>receivedSeqs := (receivedSeqs r)(SeqNum packet \<mapsto> True),
        orderingBuffer := (orderingBuffer r)(SeqNum packet \<mapsto> packet)\<rparr>"
    using False by (simp add: ReceivePacket_def MarkPacketReceived_def Let_def)
  from assms new have a: "SeqNum packet \<notin> set (map SeqNum delivered)"
    unfolding receive_inv_def by blast
  show ?thesis
    unfolding r' using assms a
    by (auto simp add: receive_inv_def)
qed

lemma GetOrderedPackets_inv:
  assumes "receive_inv r delivered" and "GetOrderedPackets r = (orderedPackets, r')"
  shows "receive_inv r' (delivered @ orderedPackets)"
proof -
  have keyed: "\<forall>k p. orderingBuffer r k = Some p \<longrightarrow> SeqNum p = k"
    using assms(1) by (simp add: receive_inv_def)
  from ordered_loop_spec [OF keyed, of "nextExpectedSeq r" "[]"] obtain new buffer' next' where
    run: "ordered_loop (orderingBuffer r) (nextExpectedSeq r) [] = ([] @ new, buffer', next')"
    and d: "distinct (map SeqNum new)"
    and sub: "set (map SeqNum new) \<subseteq> dom (orderingBuffer r)"
    and dm: "dom buffer' = dom (orderingBuffer r) - set (map SeqNum new)"
    and same: "\<forall>k \<in> dom buffer'. buffer' k = orderingBuffer r k"
    by blast
  have out: "orderedPackets = new"
    and r': "r' = r\<lparr>orderingBuffer := buffer', nextExpectedSeq := next'\<rparr>"
    using assms(2) run by (simp_all add: GetOrderedPackets_def)
  have k': "\<forall>k p. buffer' k = Some p \<longrightarrow> SeqNum p = k"
    using same keyed by (metis domI)
  have disj: "set (map SeqNum delivered) \<inter> set (map SeqNum new) = {}"
    using assms(1) sub unfolding receive_inv_def by blast
  have seen: "\<forall>s \<in> set (map SeqNum new). receivedSeqs r s = Some True"
    using assms(1) sub unfolding receive_inv_def by blast
  show ?thesis
    unfolding out r' receive_inv_def
    using assms(1) k' d dm disj seen
    by (auto simp add: receive_inv_def)
qed

lemma run_ops_inv:
  assumes "receive_inv r delivered" and "run_ops r ops delivered = (out, r')"
  shows "receive_inv r' out"
  using assms
proof (induction r ops delivered rule: run_ops.induct)
  case (1 r delivered)
  then show ?case by simp
next
  case (2 r packet ops delivered)
  then show ?case by (simp add: ReceivePacket_inv)
next
  case (3 r ops delivered)
  obtain orderedPackets r1 where g: "GetOrderedPackets r = (orderedPackets, r1)"
    by (cases "GetOrderedPackets r")
  from "3.prems" g have run: "run_ops r1 ops (delivered @ orderedPackets) = (out, r')"
    by simp
  from "3.IH" [OF g [symmetric] GetOrderedPackets_inv [OF "3.prems"(1) g] run]
  show ?case .
qed

lemma NewReliabilityLayer_inv: "receive_inv NewReliabilityLayer []"
  by (simp add: receive_inv_def NewReliabilityLayer_def)

lemma locked_engine_delivers_at_most_once:
  "distinct (map SeqNum (fst (run_ops NewReliabilityLayer ops [])))"
proof -
  obtain out r' where run: "run_ops NewReliabilityLayer ops [] = (out, r')"
    by (cases "run_ops NewReliabilityLayer ops []")
  from run_ops_inv [OF NewReliabilityLayer_inv run] show ?thesis
    by (simp add: run receive_inv_def)
qed

subsection \<open>C5: the scan for timed-out packets\<close>

lemma updateCongestionWindow_loss:
  "updateCongestionWindow rf False =
     Some (rf\<lparr>congWindow := (if congWindow rf div 2 < 1 then 1 else congWindow rf div 2)\<rparr>)"
  by (simp add: updateCongestionWindow_def Let_def)

lemma timeout_visit_spec:
  assumes "i < length (unackedTable rf)" and "unackedTable rf ! i = Some entry"
  shows "\<exists>rf'. timeout_visit now timeout i entry (rf, acc) =
            Some (rf', acc @ visit_packet now timeout (unackedTable rf ! i)) \<and>
          unackedTable rf' = (unackedTable rf)[i := visit_bucket now timeout (unackedTable rf ! i)] \<and>
          timeoutBase rf' = timeoutBase rf"
proof (cases "now - SendTime entry > timeout")
  case False
  have "(unackedTable rf)[i := Some entry] = unackedTable rf"
    using list_update_id [of "unackedTable rf" i] assms(2) by simp
  with False show ?thesis
    using assms by (simp add: timeout_visit_def visit_packet_def visit_bucket_def)
next
  case True
  let ?rf = "rf\<lparr>packetsRetr := packetsRetr rf + 1,
      unackedTable := (unackedTable rf)
        [i := Some (entry\<lparr>entryRetryCount := entryRetryCount entry + 1, SendTime := now\<rparr>)]\<rparr>"
  show ?thesis
    using True assms
    by (simp add: timeout_visit_def visit_packet_def visit_bucket_def Let_def
          updateCongestionWindow_loss)
qed

lemma ForEach_timeout_spec:
  assumes "distinct idx" and "\<forall>i \<in> set idx. i < length (unackedTable rf)"
  shows "\<exists>rf'. ForEach_timeout now timeout idx (rf, acc) =
            Some (rf', acc @ concat (map (\<lambda>i. visit_packet now timeout (unackedTable rf ! i)) idx)) \<and>
          length (unackedTable rf') = length (unackedTable rf) \<and>
          (\<forall>j < length (unackedTable rf).
             unackedTable rf' ! j =
               (if j \<in> set idx then visit_bucket now timeout (unackedTable rf ! j)
                else unackedTable rf ! j)) \<and>
          timeoutBase rf' = timeoutBase rf"
  using assms
proof (induction idx arbitrary: rf acc)
  case Nil
  then show ?case by simp
next
  case (Cons i idx)
  have i: "i < length (unackedTable rf)" and ni: "i \<notin> set idx" and d: "distinct idx"
    and r: "\<forall>j \<in> set idx. j < length (unackedTable rf)"
    using Cons.prems by simp_all
  show ?case
  proof (cases "unackedTable rf ! i")
    case None
    from Cons.IH [OF d r, of acc] obtain rf' where
      run: "ForEach_timeout now timeout idx (rf, acc) =
              Some (rf', acc @ concat (map (\<lambda>i. visit_packet now timeout (unackedTable rf ! i)) idx))"
      and len: "length (unackedTable rf') = length (unackedTable rf)"
      and tab: "\<forall>j < length (unackedTable rf). unackedTable rf' ! j =
               (if j \<in> set idx then visit_bucket now timeout (unackedTable rf ! j)
                else unackedTable rf ! j)"
      and tb: "timeoutBase rf' = timeoutBase rf"
      by blast
    have "ForEach_timeout now timeout (i # idx) (rf, acc) =
        Some (rf', acc @ concat (map (\<lambda>i. visit_packet now timeout (unackedTable rf ! i)) (i # idx)))"
      using None i run by (simp add: visit_packet_def)
    moreover have "\<forall>j < length (unackedTable rf). unackedTable rf' ! j =
               (if j \<in> set (i # idx) then visit_bucket now timeout (unackedTable rf ! j)
                else unackedTable rf ! j)"
      using tab None ni by (auto simp: visit_bucket_def)
    ultimately show ?thesis using len tb by blast
  next
    case (Some entry)
    from timeout_visit_spec [OF i Some, of now timeout acc] obtain rf1 where
      v: "timeout_visit now timeout i entry (rf, acc) =
            Some (rf1, acc @ visit_packet now timeout (unackedTable rf ! i))"
      and t1: "unackedTable rf1 = (unackedTable rf)[i := visit_bucket now timeout (unackedTable rf ! i)]"
      and tb1: "timeoutBase rf1 = timeoutBase rf"
      by blast
    have len1: "length (unackedTable rf1) = length (unackedTable rf)"
      by (simp add: t1)
    have r1: "\<forall>j \<in> set idx. j < length (unackedTable rf1)"
      using r len1 by simp
    have same: "unackedTable rf1 ! j = unackedTable rf ! j" if "j \<in> set idx" for j
    proof -
      from that ni have "i \<noteq> j" by blast
      then show ?thesis by (simp add: t1)
    qed
    from Cons.IH [OF d r1, of "acc @ visit_packet now timeout (unackedTable rf ! i)"]
    obtain rf' where
      run: "ForEach_timeout now timeout idx
              (rf1, acc @ visit_packet now timeout (unackedTable rf ! i)) =
              Some (rf', (acc @ visit_packet now timeout (unackedTable rf ! i)) @
                   concat (map (\<lambda>i. visit_packet now timeout (unackedTable rf1 ! i)) idx))"
      and len: "length (unackedTable rf') = length (unackedTable rf1)"
      and tab: "\<forall>j < length (unackedTable rf1). unackedTable rf' ! j =
               (if j \<in> set idx then visit_bucket now timeout (unackedTable rf1 ! j)
                else unackedTable rf1 ! j)"
      and tb: "timeoutBase rf' = timeoutBase rf1"
      by blast
    have m: "map (\<lambda>i. visit_packet now timeout (unackedTable rf1 ! i)) idx =
             map (\<lambda>i. visit_packet now timeout (unackedTable rf ! i)) idx"
      using same by (intro map_cong) simp_all
    have "ForEach_timeout now timeout (i # idx) (rf, acc) =
        Some (rf', acc @ concat (map (\<lambda>i. visit_packet now timeout (unackedTable rf ! i)) (i # idx)))"
      using Some i v run by (simp add: m)
    moreover have "\<forall>j < length (unackedTable rf). unackedTable rf' ! j =
               (if j \<in> set (i # idx) then visit_bucket now timeout (unackedTable rf ! j)
                else unackedTable rf ! j)"
    proof (intro allI impI)
      fix j assume j: "j < length (unackedTable rf)"
      show "unackedTable rf' ! j =
               (if j \<in> set (i # idx) then visit_bucket now timeout (unackedTable rf ! j)
                else unackedTable rf ! j)"
      proof (cases "j = i")
        case True
        then show ?thesis using tab j len1 ni i by (simp add: t1)
      next
        case False
        then show ?thesis using tab j len1 same by (auto simp: t1)
      qed
    qed
    ultimately show ?thesis using len len1 tb tb1 by auto
  qed
qed

lemma LF_GetTimedOutPackets_spec:
  "\<exists>rf'. LF_GetTimedOutPackets rf now =
            Some (visit_packets now (timeoutBase rf) (unackedTable rf), rf') \<and>
          unackedTable rf' = map (visit_bucket now (timeoutBase rf)) (unackedTable rf) \<and>
          timeoutBase rf' = timeoutBase rf"
proof -
  let ?n = "length (unackedTable rf)"
  let ?tb = "timeoutBase rf"
  have "distinct [0..<?n]" and "\<forall>i \<in> set [0..<?n]. i < ?n" by simp_all
  from ForEach_timeout_spec [OF this, of now ?tb "[]"] obtain rf1 where
    run: "ForEach_timeout now ?tb [0..<?n] (rf, []) =
            Some (rf1, concat (map (\<lambda>i. visit_packet now ?tb (unackedTable rf ! i)) [0..<?n]))"
    and len: "length (unackedTable rf1) = ?n"
    and tab: "\<forall>j < ?n. unackedTable rf1 ! j =
               (if j \<in> set [0..<?n] then visit_bucket now ?tb (unackedTable rf ! j)
                else unackedTable rf ! j)"
    and tb: "timeoutBase rf1 = ?tb"
    by auto
  have "map (\<lambda>i. visit_packet now ?tb (unackedTable rf ! i)) [0..<?n]
      = map (visit_packet now ?tb) (map (\<lambda>i. unackedTable rf ! i) [0..<?n])"
    by simp
  also have "\<dots> = map (visit_packet now ?tb) (unackedTable rf)"
    by (simp only: map_nth)
  finally have out: "concat (map (\<lambda>i. visit_packet now ?tb (unackedTable rf ! i)) [0..<?n])
      = visit_packets now ?tb (unackedTable rf)"
    by (simp add: visit_packets_def)
  have t: "unackedTable rf1 = map (visit_bucket now ?tb) (unackedTable rf)"
    using len tab by (intro nth_equalityI) simp_all
  show ?thesis
    using run out t tb
    by (auto simp add: LF_GetTimedOutPackets_def Let_def)
qed






















lemma visit_packets_empty: "visit_packets now timeout (replicate n None) = []"
  by (simp add: visit_packets_def visit_packet_def)

lemma visit_packets_single:
  assumes "i < n"
  shows "visit_packets now timeout ((replicate n None)[i := bucket])
     = visit_packet now timeout bucket"
proof -
  have "(replicate n None)[i := bucket] = replicate i None @ bucket # replicate (n - Suc i) None"
    using assms by (simp add: upd_conv_take_nth_drop min_def)
  then show ?thesis
    by (simp add: visit_packets_def visit_packet_def)
qed

lemma LF_SendPacket_200:
  "LF_SendPacket NewLockFreeReliabilityLayer (data_packet 200) 0 = Some (True, lf_in_flight_200)"
  by (simp add: LF_SendPacket_def Insert_def table_mask_def lf_in_flight_200_def
        NewLockFreeReliabilityLayer_def IsDataPacket_def data_packet_def NewPacket_def
        DATA_PACKET_def Let_def)

text \<open>
  The lock-free engine on the same calls: the scan at 2 s returns the packet, the
  scan half a second later returns nothing.
\<close>

lemma lock_free_scan_once:
  "\<exists>rf' rf''. LF_GetTimedOutPackets lf_in_flight_200 2000000000 = Some ([data_packet 200], rf') \<and>
     unackedTable rf' = (replicate 16384 None)
       [200 := Some \<lparr>entryPacket = data_packet 200, SendTime = 2000000000, entryRetryCount = 1\<rparr>] \<and>
     timeoutBase rf' = 1000000000 \<and>
     LF_GetTimedOutPackets rf' 2500000000 = Some ([], rf'')"
proof -
  let ?e = "\<lparr>entryPacket = data_packet 200, SendTime = 0, entryRetryCount = 0\<rparr>"
  have tb: "timeoutBase lf_in_flight_200 = 1000000000"
    by (simp add: lf_in_flight_200_def NewLockFreeReliabilityLayer_def)
  have t: "unackedTable lf_in_flight_200 = (replicate 16384 None)[200 := Some ?e]"
    by (simp add: lf_in_flight_200_def)
  from LF_GetTimedOutPackets_spec [of lf_in_flight_200 2000000000] obtain rf1 where
    one: "LF_GetTimedOutPackets lf_in_flight_200 2000000000 =
            Some (visit_packets 2000000000 1000000000 ((replicate 16384 None)[200 := Some ?e]), rf1)"
    and t1: "unackedTable rf1 = map (visit_bucket 2000000000 1000000000) ((replicate 16384 None)[200 := Some ?e])"
    and tb1: "timeoutBase rf1 = 1000000000"
    unfolding tb t by blast
  have out1: "visit_packets 2000000000 1000000000 ((replicate 16384 None)[200 := Some ?e])
      = [data_packet 200]"
    by (simp add: visit_packets_single visit_packet_def)
  have t1': "unackedTable rf1 = (replicate 16384 None)
      [200 := Some \<lparr>entryPacket = data_packet 200, SendTime = 2000000000, entryRetryCount = 1\<rparr>]"
    unfolding t1 by (simp add: map_update visit_bucket_def)
  from LF_GetTimedOutPackets_spec [of rf1 2500000000] obtain rf2 where
    two: "LF_GetTimedOutPackets rf1 2500000000 =
            Some (visit_packets 2500000000 (timeoutBase rf1) (unackedTable rf1), rf2)"
    by blast
  have out2: "visit_packets 2500000000 (timeoutBase rf1) (unackedTable rf1) = []"
    unfolding tb1 t1' by (simp add: visit_packets_single visit_packet_def)
  show ?thesis
    using one two t1' tb1 unfolding out1 out2 by blast
qed

text \<open>
  The lock-protected scan depends on the retransmission timeout of the state it
  reads: once the timeout has been raised, by \<open>SetRetransmissionTimeout\<close> or by
  the round-trip sample of an acknowledgment, a packet that an earlier scan
  returned and that is still tracked is not returned until its age exceeds the
  new timeout.
\<close>

lemma locked_scan_after_timeout_raised:
  "GetTimedOutPackets in_flight_100 (2 * Second) [100] = [data_packet 100] \<and>
   unackedPackets (SetRetransmissionTimeout in_flight_100 (5 * Second)) 100 =
     Some \<lparr>Packet = data_packet 100, SentTime = 0, RetryCount = 0\<rparr> \<and>
   GetTimedOutPackets (SetRetransmissionTimeout in_flight_100 (5 * Second))
     (2 * Second + Millisecond) [100] = []"
  by (simp add: GetTimedOutPackets_def SetRetransmissionTimeout_def in_flight_100_def
        SendPacket_def SendPacketWithTimestamp_def
        NewReliabilityLayer_def IsDataPacket_def data_packet_def NewPacket_def DATA_PACKET_def
        time_Sub_def Second_def Millisecond_def Let_def)

text \<open>
  The lock-free scan compares the \<open>uint64\<close> difference, which wraps around: an
  entry whose send time is later than the scan's clock reading (its age is
  negative) is returned and refreshed.
\<close>

lemma lock_free_scan_before_send_time:
  "\<exists>rf'. LF_GetTimedOutPackets lf_in_flight_200 2000000000 = Some ([data_packet 200], rf') \<and>
     unackedTable rf' = (replicate 16384 None)
       [200 := Some \<lparr>entryPacket = data_packet 200, SendTime = 2000000000, entryRetryCount = 1\<rparr>] \<and>
     age 1000000000 \<lparr>entryPacket = data_packet 200, SendTime = 2000000000, entryRetryCount = 1\<rparr> < 0 \<and>
     (\<exists>rf''. LF_GetTimedOutPackets rf' 1000000000 = Some ([data_packet 200], rf''))"
proof -
  let ?e = "\<lparr>entryPacket = data_packet 200, SendTime = 2000000000, entryRetryCount = 1\<rparr>"
  from lock_free_scan_once obtain rf1 rf2 where
    one: "LF_GetTimedOutPackets lf_in_flight_200 2000000000 = Some ([data_packet 200], rf1)"
    and t1: "unackedTable rf1 = (replicate 16384 None)[200 := Some ?e]"
    and tb1: "timeoutBase rf1 = 1000000000"
    by blast
  from LF_GetTimedOutPackets_spec [of rf1 1000000000] obtain rf3 where
    two: "LF_GetTimedOutPackets rf1 1000000000 =
            Some (visit_packets 1000000000 (timeoutBase rf1) (unackedTable rf1), rf3)"
    by blast
  have out: "visit_packets 1000000000 (timeoutBase rf1) (unackedTable rf1) = [data_packet 200]"
    unfolding tb1 t1 by (simp add: visit_packets_single visit_packet_def)
  have "age 1000000000 ?e < 0"
    by (simp add: age_def)
  then show ?thesis
    using one t1 two unfolding out by blast
qed

subsection \<open>C6: round-trip time and retransmission timeout\<close>

lemma wrap64_id: "- (2 ^ 63) \<le> x \<Longrightarrow> x < 2 ^ 63 \<Longrightarrow> wrap64 x = x"
  by (simp add: wrap64_def)

lemma foldl_wrap64_sum:
  "\<forall>x \<in> set xs. 0 \<le> x \<Longrightarrow> 0 \<le> a \<Longrightarrow> a + sum_list xs < 2 ^ 63 \<Longrightarrow>
   foldl (\<lambda>total rtt. wrap64 (total + rtt)) a xs = a + sum_list xs"
proof (induction xs arbitrary: a)
  case Nil
  then show ?case by simp
next
  case (Cons x xs)
  have nn: "0 \<le> sum_list xs" using Cons.prems(1) by (simp add: sum_list_nonneg)
  have x0: "0 \<le> x" using Cons.prems(1) by simp
  have w: "wrap64 (a + x) = a + x"
    using Cons.prems nn x0 by (intro wrap64_id) simp_all
  have "foldl (\<lambda>total rtt. wrap64 (total + rtt)) (a + x) xs = (a + x) + sum_list xs"
    using Cons.prems x0 by (intro Cons.IH) simp_all
  then show ?case by (simp add: w)
qed

lemma go_div_nonneg: "0 \<le> a \<Longrightarrow> 0 < b \<Longrightarrow> go_div a b = a div b"
  by (simp add: go_div_def)

lemma sample_window_facts:
  assumes "\<forall>x \<in> set (samples @ [sample]). 0 \<le> x"
  shows "\<forall>x \<in> set (sample_window samples sample). 0 \<le> x"
    and "sum_list (sample_window samples sample) \<le> sum_list (samples @ [sample])"
    and "0 < length (sample_window samples sample)"
proof -
  show "\<forall>x \<in> set (sample_window samples sample). 0 \<le> x"
    using assms by (cases samples) (auto simp: sample_window_def)
  show "sum_list (sample_window samples sample) \<le> sum_list (samples @ [sample])"
    using assms by (cases samples) (auto simp: sample_window_def)
  show "0 < length (sample_window samples sample)"
    by (cases samples) (auto simp: sample_window_def)
qed

lemma updateRTT_window:
  "updateRTT r sample =
     (let samples = sample_window (rttSamples r) sample;
          average = go_div (foldl (\<lambda>total rtt. wrap64 (total + rtt)) 0 samples)
                      (int (length samples));
          rto = wrap64 (average * 2);
          rto = (if rto < 100 * Millisecond then 100 * Millisecond else rto);
          rto = (if rto > 5 * Second then 5 * Second else rto)
      in r\<lparr>rttSamples := samples, averageRTT := average, retransmissionTimeout := rto\<rparr>)"
  by (simp add: updateRTT_def sample_window_def Let_def)

lemma updateRTT_mean:
  assumes nn: "\<forall>x \<in> set (rttSamples r @ [sample]). 0 \<le> x"
    and bound: "sum_list (rttSamples r @ [sample]) < 2 ^ 62"
  shows "rttSamples (updateRTT r sample) = sample_window (rttSamples r) sample"
    and "averageRTT (updateRTT r sample) =
           sum_list (sample_window (rttSamples r) sample)
             div int (length (sample_window (rttSamples r) sample))"
    and "retransmissionTimeout (updateRTT r sample) =
           max (100 * Millisecond) (min (5 * Second) (2 * averageRTT (updateRTT r sample)))"
proof -
  let ?w = "sample_window (rttSamples r) sample"
  let ?total = "foldl (\<lambda>total rtt. wrap64 (total + rtt)) 0 ?w"
  note f = sample_window_facts [OF nn]
  have s0: "0 \<le> sum_list ?w" using f(1) by (simp add: sum_list_nonneg)
  have s1: "sum_list ?w < 2 ^ 62" using f(2) bound by simp
  have total: "?total = sum_list ?w"
    using foldl_wrap64_sum [of ?w 0] f(1) s1 by simp
  have avg: "go_div ?total (int (length ?w)) = sum_list ?w div int (length ?w)"
    unfolding total using s0 f(3) by (intro go_div_nonneg) simp_all
  have a0: "0 \<le> sum_list ?w div int (length ?w)"
    using s0 f(3) by (simp add: pos_imp_zdiv_nonneg_iff)
  have a1: "sum_list ?w div int (length ?w) \<le> sum_list ?w"
    using zdiv_mono2 [of "sum_list ?w" 1 "int (length ?w)"] s0 f(3) by simp
  have dbl: "wrap64 (sum_list ?w div int (length ?w) * 2) = 2 * (sum_list ?w div int (length ?w))"
    using a0 a1 s1 by (subst wrap64_id) simp_all
  show "rttSamples (updateRTT r sample) = ?w"
    by (simp add: updateRTT_window Let_def)
  show av: "averageRTT (updateRTT r sample) = sum_list ?w div int (length ?w)"
    unfolding updateRTT_window Let_def avg by simp
  show "retransmissionTimeout (updateRTT r sample) =
           max (100 * Millisecond) (min (5 * Second) (2 * averageRTT (updateRTT r sample)))"
    unfolding av unfolding updateRTT_window Let_def avg dbl
    by (simp add: Millisecond_def Second_def max_def min_def)
qed

lemma updateRTTAtomic_estimate:
  assumes "7 * unat (rttEstimate rf) + unat sampleRTT < 2 ^ 64"
  shows "unat (rttEstimate (updateRTTAtomic rf sampleRTT)) =
           (7 * unat (rttEstimate rf) + unat sampleRTT) div 8"
proof -
  have "unat (rttEstimate rf * 7 + sampleRTT) = (unat (rttEstimate rf) * 7 + unat sampleRTT) mod 2 ^ 64"
    by (simp add: unat_word_ariths mod_simps)
  also have "\<dots> = 7 * unat (rttEstimate rf) + unat sampleRTT"
    using assms by (simp add: mult.commute)
  finally have "unat ((rttEstimate rf * 7 + sampleRTT) div 8)
      = (7 * unat (rttEstimate rf) + unat sampleRTT) div 8"
    by (simp add: unat_div_distrib)
  then show ?thesis
    by (simp add: updateRTTAtomic_def Let_def)
qed

lemma updateRTTAtomic_timeout_range:
  "100000000 \<le> timeoutBase (updateRTTAtomic rf sampleRTT) \<and>
   timeoutBase (updateRTTAtomic rf sampleRTT) \<le> 5000000000"
  by (simp add: updateRTTAtomic_def Let_def not_less)

lemma updateRTTAtomic_timeout:
  assumes "7 * unat (rttEstimate rf) + unat sampleRTT < 2 ^ 64"
  shows "unat (timeoutBase (updateRTTAtomic rf sampleRTT)) =
           max 100000000 (min 5000000000 (4 * unat (rttEstimate (updateRTTAtomic rf sampleRTT))))"
proof -
  let ?new = "rttEstimate (updateRTTAtomic rf sampleRTT)"
  have "unat ?new < 2 ^ 61"
    using assms unfolding updateRTTAtomic_estimate [OF assms] by simp
  then have four: "unat (?new * 4) = 4 * unat ?new"
    by (simp add: unat_word_ariths)
  have t: "timeoutBase (updateRTTAtomic rf sampleRTT) =
      (let t = ?new * 4;
           t = (if t < 100000000 then 100000000 else t)
       in if t > 5000000000 then 5000000000 else t)"
    by (simp add: updateRTTAtomic_def Let_def)
  show ?thesis
    unfolding t Let_def using four
    by (auto simp add: word_less_nat_alt max_def min_def)
qed

text \<open>
  C6, as the code has it. The lock-free engine updates its smoothed estimate as
  the weighted average \<open>(7 * old + sample) / 8\<close> (in integer arithmetic, as
  long as the sum fits 64 bits) and sets the timeout to 4 times the new estimate,
  clamped between 100 milliseconds and 5 seconds. The lock-protected engine
  instead keeps the last 10 samples, sets its estimate to their arithmetic mean
  and the timeout to 2 times the mean, clamped between 100 milliseconds and 5
  seconds (for non-negative samples whose sum stays below \<open>2 ^ 62\<close>
  nanoseconds, so that no \<open>int64\<close> wraps).
\<close>

theorem rtt_update_rules:
  "(7 * unat (rttEstimate rf) + unat sampleRTT < 2 ^ 64 \<longrightarrow>
      unat (rttEstimate (updateRTTAtomic rf sampleRTT)) =
        (7 * unat (rttEstimate rf) + unat sampleRTT) div 8 \<and>
      unat (timeoutBase (updateRTTAtomic rf sampleRTT)) =
        max 100000000 (min 5000000000 (4 * unat (rttEstimate (updateRTTAtomic rf sampleRTT))))) \<and>
   100000000 \<le> timeoutBase (updateRTTAtomic rf sampleRTT) \<and>
   timeoutBase (updateRTTAtomic rf sampleRTT) \<le> 5000000000 \<and>
   ((\<forall>x \<in> set (rttSamples r @ [sample]). 0 \<le> x) \<and> sum_list (rttSamples r @ [sample]) < 2 ^ 62 \<longrightarrow>
      rttSamples (updateRTT r sample) = sample_window (rttSamples r) sample \<and>
      averageRTT (updateRTT r sample) =
        sum_list (sample_window (rttSamples r) sample)
          div int (length (sample_window (rttSamples r) sample)) \<and>
      retransmissionTimeout (updateRTT r sample) =
        max (100 * Millisecond) (min (5 * Second) (2 * averageRTT (updateRTT r sample))))"
  using updateRTTAtomic_estimate [of rf sampleRTT] updateRTTAtomic_timeout [of rf sampleRTT]
    updateRTTAtomic_timeout_range [of rf sampleRTT] updateRTT_mean [of r sample]
  by blast

theorem rtt_update_rules_witness:
  "7 * unat (rttEstimate NewLockFreeReliabilityLayer) + unat (800000000 :: 64 word) < 2 ^ 64 \<and>
   unat (rttEstimate (updateRTTAtomic NewLockFreeReliabilityLayer 800000000)) =
     (7 * unat (rttEstimate NewLockFreeReliabilityLayer) + unat (800000000 :: 64 word)) div 8 \<and>
   unat (timeoutBase (updateRTTAtomic NewLockFreeReliabilityLayer 800000000)) =
     max 100000000 (min 5000000000
       (4 * unat (rttEstimate (updateRTTAtomic NewLockFreeReliabilityLayer 800000000)))) \<and>
   rttSamples NewReliabilityLayer = [] \<and> 0 \<le> 800 * Millisecond \<and>
   sum_list (rttSamples NewReliabilityLayer @ [800 * Millisecond]) < 2 ^ 62 \<and>
   averageRTT (updateRTT NewReliabilityLayer (800 * Millisecond)) =
     sum_list (sample_window (rttSamples NewReliabilityLayer) (800 * Millisecond))
       div int (length (sample_window (rttSamples NewReliabilityLayer) (800 * Millisecond))) \<and>
   retransmissionTimeout (updateRTT NewReliabilityLayer (800 * Millisecond)) =
     max (100 * Millisecond) (min (5 * Second)
       (2 * averageRTT (updateRTT NewReliabilityLayer (800 * Millisecond))))"
proof -
  have h1: "7 * unat (rttEstimate NewLockFreeReliabilityLayer) + unat (800000000 :: 64 word) < 2 ^ 64"
    by (simp add: NewLockFreeReliabilityLayer_def)
  have h2: "(\<forall>x \<in> set (rttSamples NewReliabilityLayer @ [800 * Millisecond]). 0 \<le> x) \<and>
      sum_list (rttSamples NewReliabilityLayer @ [800 * Millisecond]) < 2 ^ 62"
    by (simp add: NewReliabilityLayer_def Millisecond_def)
  have h3: "rttSamples NewReliabilityLayer = [] \<and> 0 \<le> 800 * Millisecond"
    by (simp add: NewReliabilityLayer_def Millisecond_def)
  from rtt_update_rules [of NewLockFreeReliabilityLayer 800000000 NewReliabilityLayer
      "800 * Millisecond"] h1 h2 h3
  show ?thesis by blast
qed

lemma updateRTT_first_sample:
  "averageRTT (updateRTT NewReliabilityLayer (800 * Millisecond)) = 800 * Millisecond"
  "retransmissionTimeout (updateRTT NewReliabilityLayer (800 * Millisecond)) = 1600 * Millisecond"
proof -
  have s: "rttSamples NewReliabilityLayer = []"
    by (simp add: NewReliabilityLayer_def)
  have nn: "\<forall>x \<in> set (rttSamples NewReliabilityLayer @ [800 * Millisecond]). 0 \<le> x"
    unfolding s by (simp add: Millisecond_def)
  have b: "sum_list (rttSamples NewReliabilityLayer @ [800 * Millisecond]) < 2 ^ 62"
    unfolding s by (simp add: Millisecond_def)
  have w: "sample_window [] (800 * Millisecond) = [800 * Millisecond]"
    by (simp add: sample_window_def)
  show a: "averageRTT (updateRTT NewReliabilityLayer (800 * Millisecond)) = 800 * Millisecond"
    unfolding updateRTT_mean(2) [OF nn b] s w by simp
  show "retransmissionTimeout (updateRTT NewReliabilityLayer (800 * Millisecond)) = 1600 * Millisecond"
    unfolding updateRTT_mean(3) [OF nn b] a by (simp add: Millisecond_def Second_def)
qed

text \<open>
  C6, as the claim states it for both engines, fails on the lock-protected one:
  the first sample of 800 ms on a fresh engine (estimate 100 ms) gives the
  estimate 800 ms, not 187.5 ms, and the timeout 1600 ms, not 3200 ms.
\<close>

theorem locked_rtt_is_plain_mean_counterexample:
  "averageRTT NewReliabilityLayer = 100 * Millisecond \<and>
   averageRTT (updateRTT NewReliabilityLayer (800 * Millisecond)) = 800 * Millisecond \<and>
   averageRTT (updateRTT NewReliabilityLayer (800 * Millisecond))
     \<noteq> (7 * averageRTT NewReliabilityLayer + 800 * Millisecond) div 8 \<and>
   retransmissionTimeout (updateRTT NewReliabilityLayer (800 * Millisecond)) = 1600 * Millisecond \<and>
   retransmissionTimeout (updateRTT NewReliabilityLayer (800 * Millisecond))
     \<noteq> max (100 * Millisecond) (min (5 * Second)
           (4 * averageRTT (updateRTT NewReliabilityLayer (800 * Millisecond))))"
proof -
  have a: "averageRTT NewReliabilityLayer = 100 * Millisecond"
    by (simp add: NewReliabilityLayer_def)
  show ?thesis
    unfolding updateRTT_first_sample a by (simp add: Millisecond_def Second_def)
qed

subsection \<open>C7: acknowledging twice\<close>

lemma ack_for_fields: "HasAck (ack_for s)" "AckNum (ack_for s) = s + 1"
  by (simp_all add: ack_for_def NewPacket_def HasAck_def ACK_FLAG_def)

lemma in_flight_100_entry:
  "unackedPackets in_flight_100 100 =
     Some \<lparr>Packet = data_packet 100, SentTime = 0, RetryCount = 0\<rparr>"
  "nextSeqNum in_flight_100 = 1"
  by (simp_all add: in_flight_100_def SendPacket_def SendPacketWithTimestamp_def
        data_packet_IsData data_packet_SeqNum NewReliabilityLayer_def)

lemma in_flight_allocated_entry:
  "unackedPackets in_flight_allocated 1 =
     Some \<lparr>Packet = data_packet 1, SentTime = 0, RetryCount = 0\<rparr>"
  "nextSeqNum in_flight_allocated = 2"
  by (simp_all add: in_flight_allocated_def GetNextSeqNum_def SendPacket_def
        SendPacketWithTimestamp_def data_packet_IsData data_packet_SeqNum NewReliabilityLayer_def)

lemma updateRTT_frame:
  "unackedPackets (updateRTT r s) = unackedPackets r"
  "nextSeqNum (updateRTT r s) = nextSeqNum r"
  by (simp_all add: updateRTT_def Let_def)

lemma handleSuccessfulAck_frame:
  "unackedPackets (handleSuccessfulAck r) = unackedPackets r"
  "nextSeqNum (handleSuccessfulAck r) = nextSeqNum r"
  by (simp_all add: handleSuccessfulAck_def)

lemma HandleAck_tracked:
  assumes "unackedPackets r seqNum = Some u" and "HasAck ack" and "AckNum ack = seqNum + 1"
  shows "HandleAck r ack now =
     (None, handleSuccessfulAck
        ((updateRTT r (time_Sub now (SentTime u)))
           \<lparr>unackedPackets := (unackedPackets r)(seqNum := None)\<rparr>))"
  using assms by (simp add: HandleAck_def Let_def updateRTT_frame)

lemma HandleAck_untracked:
  assumes "unackedPackets r seqNum = None" and "HasAck ack" and "AckNum ack = seqNum + 1"
  shows "HandleAck r ack now =
     (if seqNum > nextSeqNum r then Some AckForFuturePacket else None, r)"
  using assms by (simp add: HandleAck_def Let_def)

text \<open>
  C7, as the code has it. For a sequence number recorded as in flight, the
  acknowledgment with \<open>AckNum = seqNum + 1\<close> succeeds and removes the entry. The
  same acknowledgment a second time leaves the engine unchanged; it is not
  reported as an error when the sequence number is at most the engine's
  \<open>nextSeqNum\<close> counter, and is reported as an acknowledgment for a future packet
  otherwise.
\<close>

theorem HandleAck_twice:
  assumes "unackedPackets r seqNum = Some u" and "HasAck ack" and "AckNum ack = seqNum + 1"
  shows "fst (HandleAck r ack now) = None \<and>
     unackedPackets (snd (HandleAck r ack now)) = (unackedPackets r)(seqNum := None) \<and>
     HandleAck (snd (HandleAck r ack now)) ack now' =
       (if seqNum > nextSeqNum r then Some AckForFuturePacket else None,
        snd (HandleAck r ack now))"
proof -
  let ?r1 = "handleSuccessfulAck
      ((updateRTT r (time_Sub now (SentTime u)))\<lparr>unackedPackets := (unackedPackets r)(seqNum := None)\<rparr>)"
  have first: "HandleAck r ack now = (None, ?r1)"
    using assms by (rule HandleAck_tracked)
  have gone: "unackedPackets ?r1 = (unackedPackets r)(seqNum := None)"
    by (simp add: handleSuccessfulAck_frame)
  then have none: "unackedPackets ?r1 seqNum = None" by simp
  have nsn: "nextSeqNum ?r1 = nextSeqNum r"
    by (simp add: handleSuccessfulAck_frame updateRTT_frame)
  have second: "HandleAck ?r1 ack now' =
      (if seqNum > nextSeqNum r then Some AckForFuturePacket else None, ?r1)"
    using HandleAck_untracked [OF none assms(2,3), of now'] by (simp add: nsn)
  show ?thesis
    unfolding first using gone second by simp
qed

theorem HandleAck_twice_witness:
  "unackedPackets in_flight_allocated 1 =
     Some \<lparr>Packet = data_packet 1, SentTime = 0, RetryCount = 0\<rparr> \<and>
   HasAck (ack_for 1) \<and> AckNum (ack_for 1) = 1 + 1 \<and>
   fst (HandleAck in_flight_allocated (ack_for 1) 5000000) = None \<and>
   unackedPackets (snd (HandleAck in_flight_allocated (ack_for 1) 5000000)) 1 = None \<and>
   HandleAck (snd (HandleAck in_flight_allocated (ack_for 1) 5000000)) (ack_for 1) 6000000 =
     (None, snd (HandleAck in_flight_allocated (ack_for 1) 5000000))"
  using HandleAck_twice [OF in_flight_allocated_entry(1) ack_for_fields(1) ack_for_fields(2),
      of 5000000 6000000]
  by (simp add: in_flight_allocated_entry ack_for_fields)

text \<open>
  C7, as the claim states it, fails: on a fresh engine that sent data packet 100
  without allocating sequence numbers (as \<open>AcknowledgmentHandling\<close> does), the
  second acknowledgment of 100 is reported as an error.
\<close>

theorem second_ack_reports_error_counterexample:
  "HasUnackedPacket in_flight_100 100 \<and>
   fst (HandleAck in_flight_100 (ack_for 100) 5000000) = None \<and>
   \<not> HasUnackedPacket (snd (HandleAck in_flight_100 (ack_for 100) 5000000)) 100 \<and>
   fst (HandleAck (snd (HandleAck in_flight_100 (ack_for 100) 5000000)) (ack_for 100) 6000000)
     = Some AckForFuturePacket"
proof -
  let ?r1 = "handleSuccessfulAck
      ((updateRTT in_flight_100 (time_Sub 5000000 0))
         \<lparr>unackedPackets := (unackedPackets in_flight_100)(100 := None)\<rparr>)"
  have first: "HandleAck in_flight_100 (ack_for 100) 5000000 = (None, ?r1)"
    using HandleAck_tracked [OF in_flight_100_entry(1) ack_for_fields(1) ack_for_fields(2),
        of 5000000]
    by simp
  have none: "unackedPackets ?r1 100 = None"
    by (simp add: handleSuccessfulAck_frame)
  have nsn: "nextSeqNum ?r1 = 1"
    by (simp add: handleSuccessfulAck_frame updateRTT_frame in_flight_100_entry)
  have second: "HandleAck ?r1 (ack_for 100) 6000000 = (Some AckForFuturePacket, ?r1)"
    using HandleAck_untracked [OF none ack_for_fields(1) ack_for_fields(2), of 6000000]
    by (simp add: nsn)
  show ?thesis
    unfolding first using none second
    by (simp add: HasUnackedPacket_def in_flight_100_entry)
qed

subsection \<open>C8: the window on a successful acknowledgment\<close>

lemma one_div_word: "1 < w \<Longrightarrow> 1 div w = 0" for w :: "32 word"
proof -
  assume w: "1 < w"
  then have "1 < unat w" by (simp add: word_less_nat_alt)
  moreover from w have "w \<noteq> 1" by auto
  ultimately have "unat (1 div w) = 0" by (simp add: unat_div_distrib)
  then show ?thesis unfolding unat_0_iff .
qed

lemma word_succ_no_wrap: "a < b \<Longrightarrow> unat (a + 1) = unat a + 1" for a b :: "32 word"
proof -
  assume "a < b"
  then have "unat a < unat b" by (simp add: word_less_nat_alt)
  moreover have "unat b < 2 ^ 32" using unsigned_less [of b] by simp
  ultimately have "unat a + 1 < 2 ^ 32" by simp
  then show ?thesis by (simp add: unat_word_ariths)
qed

lemma word_succ_le: "a < b \<Longrightarrow> a + 1 \<le> b" for a b :: "32 word"
proof -
  assume ab: "a < b"
  then have "unat (a + 1) = unat a + 1" by (rule word_succ_no_wrap)
  moreover from ab have "unat a < unat b" by (simp add: word_less_nat_alt)
  ultimately show ?thesis by (simp add: word_le_nat_alt)
qed

lemma word_half_le: "w div 2 \<le> w" for w :: "32 word"
  by (simp add: word_le_nat_alt unat_div_distrib)

lemma one_div_word_le: "unat (1 div w) \<le> 1" for w :: "32 word"
  by (simp add: unat_div_distrib div_le_dividend)

lemma updateCongestionWindow_bounded:
  assumes "window_bounded rf"
  shows "\<exists>rf'. updateCongestionWindow rf success = Some rf' \<and> window_bounded rf' \<and>
           lf_windowSize rf' = lf_windowSize rf"
proof (cases success)
  case False
  from assms have b: "1 \<le> unat (congWindow rf)" "unat (congWindow rf) \<le> unat (lf_windowSize rf)"
    by (simp_all add: window_bounded_def word_le_nat_alt)
  have "window_bounded (rf\<lparr>congWindow := (if congWindow rf div 2 < 1 then 1 else congWindow rf div 2)\<rparr>)"
    using b by (auto simp add: window_bounded_def word_le_nat_alt unat_div_distrib unat_0_iff [symmetric]
        simp del: unat_0_iff)
  with False show ?thesis
    by (simp add: updateCongestionWindow_def Let_def)
next
  case True
  from assms have b: "1 \<le> unat (congWindow rf)" "unat (congWindow rf) \<le> unat (lf_windowSize rf)"
    by (simp_all add: window_bounded_def word_le_nat_alt)
  then have nz: "congWindow rf \<noteq> 0" by auto
  have ws: "unat (lf_windowSize rf) < 2 ^ 32" using unsigned_less [of "lf_windowSize rf"] by simp
  let ?n = "if congWindow rf < lf_windowSize rf div 2 then congWindow rf + 1
            else congWindow rf + 1 div congWindow rf"
  have ge: "1 \<le> unat ?n"
  proof (cases "congWindow rf < lf_windowSize rf div 2")
    case True
    then have "unat (congWindow rf) + 1 < 2 ^ 32"
      using ws by (simp add: word_less_nat_alt unat_div_distrib)
    then have "unat (congWindow rf + 1) = unat (congWindow rf) + 1"
      by (simp add: unat_word_ariths)
    with True show ?thesis by simp
  next
    case False
    have "unat (congWindow rf) + unat (1 div congWindow rf) < 2 ^ 32"
      using one_div_word_le [of "congWindow rf"] b ws
      by (cases "unat (congWindow rf) = 1") (auto simp add: unat_div_distrib)
    then have "unat (congWindow rf + 1 div congWindow rf)
        = unat (congWindow rf) + unat (1 div congWindow rf)"
      by (simp add: unat_word_ariths)
    with False b show ?thesis by simp
  qed
  have "window_bounded (rf\<lparr>congWindow := (if ?n > lf_windowSize rf then lf_windowSize rf else ?n)\<rparr>)"
    using ge b unfolding window_bounded_def
    by (auto simp add: word_le_nat_alt word_less_nat_alt)
  with True nz show ?thesis
    by (simp add: updateCongestionWindow_def Let_def)
qed

lemma NewLockFreeReliabilityLayer_bounded: "window_bounded NewLockFreeReliabilityLayer"
  by (simp add: window_bounded_def NewLockFreeReliabilityLayer_def)

text \<open>
  C8: when the congestion window is at or above the slow-start threshold and
  greater than 1, a successful acknowledgment leaves the congestion window (and
  the engine) unchanged, because \<open>1 / window\<close> is 0 in integer arithmetic; below
  the threshold it increments the window by exactly 1, without wrap-around. The
  lock-protected engine compares with \<open>ssthresh\<close>. The lock-free engine has no
  such field: its threshold is half the flow-control window, and it caps the
  result at the flow-control window, which the congestion window never exceeds
  (\<open>updateCongestionWindow_bounded\<close>).
\<close>

theorem successful_ack_window:
  "(ssthresh r \<le> congestionWindow r \<and> 1 < congestionWindow r
      \<longrightarrow> handleSuccessfulAck r = r) \<and>
   (congestionWindow r < ssthresh r
      \<longrightarrow> handleSuccessfulAck r = r\<lparr>congestionWindow := congestionWindow r + 1\<rparr> \<and>
          unat (congestionWindow (handleSuccessfulAck r)) = unat (congestionWindow r) + 1) \<and>
   (lf_windowSize rf div 2 \<le> congWindow rf \<and> 1 < congWindow rf \<and>
    congWindow rf \<le> lf_windowSize rf
      \<longrightarrow> updateCongestionWindow rf True = Some rf) \<and>
   (congWindow rf < lf_windowSize rf div 2
      \<longrightarrow> updateCongestionWindow rf True = Some (rf\<lparr>congWindow := congWindow rf + 1\<rparr>) \<and>
          unat (congWindow rf + 1) = unat (congWindow rf) + 1)"
proof (intro conjI impI)
  assume h: "ssthresh r \<le> congestionWindow r \<and> 1 < congestionWindow r"
  then have d: "1 div congestionWindow r = 0" by (intro one_div_word) simp
  from h have a: "\<not> congestionWindow r < ssthresh r" by (simp add: not_less)
  show "handleSuccessfulAck r = r"
    unfolding handleSuccessfulAck_def d using a by simp
next
  assume h: "congestionWindow r < ssthresh r"
  then show "handleSuccessfulAck r = r\<lparr>congestionWindow := congestionWindow r + 1\<rparr>"
    by (simp add: handleSuccessfulAck_def)
  from h show "unat (congestionWindow (handleSuccessfulAck r)) = unat (congestionWindow r) + 1"
    by (simp add: handleSuccessfulAck_def word_succ_no_wrap)
next
  assume h: "lf_windowSize rf div 2 \<le> congWindow rf \<and> 1 < congWindow rf \<and>
    congWindow rf \<le> lf_windowSize rf"
  then have d: "1 div congWindow rf = 0" by (intro one_div_word) simp
  from h have nz: "congWindow rf \<noteq> 0" by auto
  from h have a: "\<not> congWindow rf < lf_windowSize rf div 2" by (simp add: not_less)
  from h have b: "\<not> congWindow rf > lf_windowSize rf" by (simp add: not_less)
  show "updateCongestionWindow rf True = Some rf"
    unfolding updateCongestionWindow_def Let_def d using nz a b by simp
next
  assume h: "congWindow rf < lf_windowSize rf div 2"
  then have "congWindow rf + 1 \<le> lf_windowSize rf div 2" by (rule word_succ_le)
  then have "congWindow rf + 1 \<le> lf_windowSize rf"
    using word_half_le [of "lf_windowSize rf"] by simp
  then have b: "\<not> congWindow rf + 1 > lf_windowSize rf" by (simp add: not_less)
  from h have a: "\<not> lf_windowSize rf div 2 \<le> congWindow rf" by (simp add: not_le)
  show "updateCongestionWindow rf True = Some (rf\<lparr>congWindow := congWindow rf + 1\<rparr>)"
    using h by (simp add: updateCongestionWindow_def Let_def a b)
  from h show "unat (congWindow rf + 1) = unat (congWindow rf) + 1"
    by (rule word_succ_no_wrap)
qed

theorem successful_ack_window_witness:
  "(ssthresh (NewReliabilityLayer\<lparr>congestionWindow := 32\<rparr>)
      \<le> congestionWindow (NewReliabilityLayer\<lparr>congestionWindow := 32\<rparr>) \<and>
    1 < congestionWindow (NewReliabilityLayer\<lparr>congestionWindow := 32\<rparr>) \<and>
    congestionWindow (handleSuccessfulAck (NewReliabilityLayer\<lparr>congestionWindow := 32\<rparr>)) = 32) \<and>
   (congestionWindow NewReliabilityLayer < ssthresh NewReliabilityLayer \<and>
    congestionWindow (handleSuccessfulAck NewReliabilityLayer) = 2) \<and>
   (lf_windowSize (NewLockFreeReliabilityLayer\<lparr>congWindow := 16\<rparr>) div 2
      \<le> congWindow (NewLockFreeReliabilityLayer\<lparr>congWindow := 16\<rparr>) \<and>
    1 < congWindow (NewLockFreeReliabilityLayer\<lparr>congWindow := 16\<rparr>) \<and>
    congWindow (NewLockFreeReliabilityLayer\<lparr>congWindow := 16\<rparr>)
      \<le> lf_windowSize (NewLockFreeReliabilityLayer\<lparr>congWindow := 16\<rparr>) \<and>
    updateCongestionWindow (NewLockFreeReliabilityLayer\<lparr>congWindow := 16\<rparr>) True
      = Some (NewLockFreeReliabilityLayer\<lparr>congWindow := 16\<rparr>)) \<and>
   (congWindow NewLockFreeReliabilityLayer < lf_windowSize NewLockFreeReliabilityLayer div 2 \<and>
    updateCongestionWindow NewLockFreeReliabilityLayer True
      = Some (NewLockFreeReliabilityLayer\<lparr>congWindow := 2\<rparr>))"
  using successful_ack_window [of "NewReliabilityLayer\<lparr>congestionWindow := 32\<rparr>"
          "NewLockFreeReliabilityLayer\<lparr>congWindow := 16\<rparr>"]
        successful_ack_window [of NewReliabilityLayer NewLockFreeReliabilityLayer]
  by (simp add: NewReliabilityLayer_def NewLockFreeReliabilityLayer_def)

subsection \<open>C9: the window after a loss\<close>

lemma max_one_word: "max 1 x = (if x = 0 then 1 else (x :: 32 word))"
proof (cases "x = 0")
  case True
  then show ?thesis by simp
next
  case False
  then have "0 < unat x" by (simp add: unat_gt_0)
  then have "1 \<le> x" by (simp add: word_le_nat_alt)
  with False show ?thesis by (simp add: max_def)
qed

lemma unat_half: "unat (w div 2) = unat w div 2" for w :: "32 word"
  by (simp add: unat_div_distrib)

lemma half_eq_0: "(w div 2 = 0) = (unat w div 2 = 0)" for w :: "32 word"
  using unat_0_iff [of "w div 2"] by (simp add: unat_half)

text \<open>
  C9, as the code has it. For every congestion window before the loss, a loss
  sets the congestion window to \<open>max 1 (window / 2)\<close> in both engines, so the
  window after a loss is never zero. In the lock-protected engine
  \<open>SimulatePacketLoss\<close> also sets the slow-start threshold to that value, so
  that the window equals the threshold. The lock-free engine has no threshold
  field: the loss branch of \<open>updateCongestionWindow\<close> writes the congestion
  window only, and its slow-start threshold, half the flow-control window,
  stays what it was.
\<close>

theorem loss_halves_window:
  "ssthresh (SimulatePacketLoss r) = max 1 (congestionWindow r div 2) \<and>
   congestionWindow (SimulatePacketLoss r) = ssthresh (SimulatePacketLoss r) \<and>
   1 \<le> congestionWindow (SimulatePacketLoss r) \<and>
   congestionWindow (SimulatePacketLoss r) \<noteq> 0 \<and>
   unat (congestionWindow (SimulatePacketLoss r)) = max 1 (unat (congestionWindow r) div 2) \<and>
   updateCongestionWindow rf False = Some (rf\<lparr>congWindow := max 1 (congWindow rf div 2)\<rparr>) \<and>
   max 1 (congWindow rf div 2) \<noteq> 0 \<and>
   unat (max 1 (congWindow rf div 2)) = max 1 (unat (congWindow rf) div 2) \<and>
   lf_ssthresh (rf\<lparr>congWindow := max 1 (congWindow rf div 2)\<rparr>) = lf_ssthresh rf"
proof -
  have s: "ssthresh (SimulatePacketLoss r) = max 1 (congestionWindow r div 2)"
    by (simp add: SimulatePacketLoss_def Let_def max_one_word)
  have c: "congestionWindow (SimulatePacketLoss r) = ssthresh (SimulatePacketLoss r)"
    by (simp add: SimulatePacketLoss_def Let_def)
  have nz: "max 1 x \<noteq> 0" for x :: "32 word"
    by (simp add: max_one_word)
  have ge: "1 \<le> max 1 x" for x :: "32 word"
    by simp
  have u: "unat (max 1 (w div 2)) = max 1 (unat w div 2)" for w :: "32 word"
  proof (cases "w div 2 = 0")
    case True
    moreover from True have "unat w div 2 = 0" by (simp add: half_eq_0)
    ultimately show ?thesis by (simp add: max_one_word)
  next
    case False
    moreover from False have "unat w div 2 \<noteq> 0" by (simp add: half_eq_0)
    ultimately show ?thesis by (simp add: max_one_word unat_half)
  qed
  have lf: "updateCongestionWindow rf False = Some (rf\<lparr>congWindow := max 1 (congWindow rf div 2)\<rparr>)"
    by (simp add: updateCongestionWindow_def Let_def max_one_word)
  have th: "lf_ssthresh (rf\<lparr>congWindow := max 1 (congWindow rf div 2)\<rparr>) = lf_ssthresh rf"
    by (simp add: lf_ssthresh_def)
  show ?thesis
    unfolding c s using nz ge u lf th by simp
qed

text \<open>
  The two engines do reach a congestion window of 8 from their constructors.
\<close>

lemma hs_step:
  "w < 32 \<Longrightarrow> handleSuccessfulAck (NewReliabilityLayer\<lparr>congestionWindow := w\<rparr>) =
     NewReliabilityLayer\<lparr>congestionWindow := w + 1\<rparr>"
  by (simp add: handleSuccessfulAck_def NewReliabilityLayer_def)

lemma fresh_window: "NewReliabilityLayer = NewReliabilityLayer\<lparr>congestionWindow := 1\<rparr>"
  by (simp add: NewReliabilityLayer_def)

lemma seven: "(f ^^ 7) x = f (f (f (f (f (f (f x))))))"
  by (simp add: eval_nat_numeral funpow_swap1)

lemma window_8_fields:
  "window_8 = NewReliabilityLayer\<lparr>congestionWindow := 8\<rparr>"
proof -
  have "window_8 = (handleSuccessfulAck ^^ 7) (NewReliabilityLayer\<lparr>congestionWindow := 1\<rparr>)"
    unfolding window_8_def by (subst fresh_window) (rule refl)
  also have "\<dots> = NewReliabilityLayer\<lparr>congestionWindow := 8\<rparr>"
    unfolding seven by (simp add: hs_step)
  finally show ?thesis .
qed

lemma lf_step:
  "w < 16 \<Longrightarrow> updateCongestionWindow (NewLockFreeReliabilityLayer\<lparr>congWindow := w\<rparr>) True =
     Some (NewLockFreeReliabilityLayer\<lparr>congWindow := w + 1\<rparr>)"
proof -
  assume w: "w < 16"
  then have "w + 1 \<le> 32"
    by (simp add: word_less_nat_alt word_le_nat_alt unat_word_ariths)
  then have a: "\<not> 32 < w + 1" by (simp add: not_less)
  from w have b: "\<not> 16 \<le> w" by (simp add: not_le)
  from w a b show ?thesis
    by (simp add: updateCongestionWindow_def NewLockFreeReliabilityLayer_def Let_def)
qed

lemma fresh_lf_window:
  "NewLockFreeReliabilityLayer = NewLockFreeReliabilityLayer\<lparr>congWindow := 1\<rparr>"
  by (simp add: NewLockFreeReliabilityLayer_def)

lemma lf_window_8_reached:
  "grow_window 7 NewLockFreeReliabilityLayer = Some lf_window_8"
proof -
  have "grow_window (Suc (Suc (Suc (Suc (Suc (Suc (Suc 0)))))))
           (NewLockFreeReliabilityLayer\<lparr>congWindow := 1\<rparr>) = Some lf_window_8"
    by (simp add: lf_step lf_window_8_def)
  moreover have "(7 :: nat) = Suc (Suc (Suc (Suc (Suc (Suc (Suc 0))))))"
    by simp
  ultimately show ?thesis
    by (simp only: fresh_lf_window [symmetric])
qed

text \<open>
  C9, as the claim states it for both engines, fails on the lock-free one. With
  a congestion window of 8 (of a flow-control window of 32) a loss sets the
  window to 4, but the slow-start threshold is still 16, neither
  \<open>max 1 (8 / 2)\<close> nor equal to the window, and the next acknowledgment raises
  the window to 5. In the lock-protected engine the same loss sets threshold and
  window to 4, and the next acknowledgment leaves the window at 4.
\<close>

theorem lock_free_loss_keeps_threshold_counterexample:
  "congWindow lf_window_8 = 8 \<and>
   updateCongestionWindow lf_window_8 False = Some (lf_window_8\<lparr>congWindow := 4\<rparr>) \<and>
   lf_ssthresh (lf_window_8\<lparr>congWindow := 4\<rparr>) = 16 \<and>
   lf_ssthresh (lf_window_8\<lparr>congWindow := 4\<rparr>) \<noteq> max 1 (congWindow lf_window_8 div 2) \<and>
   congWindow (lf_window_8\<lparr>congWindow := 4\<rparr>) \<noteq> lf_ssthresh (lf_window_8\<lparr>congWindow := 4\<rparr>) \<and>
   updateCongestionWindow (lf_window_8\<lparr>congWindow := 4\<rparr>) True =
     Some (lf_window_8\<lparr>congWindow := 5\<rparr>) \<and>
   congestionWindow window_8 = 8 \<and>
   ssthresh (SimulatePacketLoss window_8) = 4 \<and>
   congestionWindow (SimulatePacketLoss window_8) = 4 \<and>
   congestionWindow (handleSuccessfulAck (SimulatePacketLoss window_8)) = 4"
proof -
  have lf: "updateCongestionWindow lf_window_8 False = Some (lf_window_8\<lparr>congWindow := 4\<rparr>)"
    by (simp add: updateCongestionWindow_def lf_window_8_def NewLockFreeReliabilityLayer_def Let_def)
  have th: "lf_ssthresh (lf_window_8\<lparr>congWindow := 4\<rparr>) = 16"
    by (simp add: lf_ssthresh_def lf_window_8_def NewLockFreeReliabilityLayer_def)
  have ack: "updateCongestionWindow (lf_window_8\<lparr>congWindow := 4\<rparr>) True =
      Some (lf_window_8\<lparr>congWindow := 5\<rparr>)"
    by (simp add: updateCongestionWindow_def lf_window_8_def NewLockFreeReliabilityLayer_def Let_def)
  have w: "congWindow lf_window_8 = 8"
    by (simp add: lf_window_8_def)
  have m: "max 1 (congWindow lf_window_8 div 2) = 4"
    by (simp add: w)
  have locked: "SimulatePacketLoss window_8 =
      NewReliabilityLayer\<lparr>congestionWindow := 4, ssthresh := 4\<rparr>"
    by (simp add: window_8_fields SimulatePacketLoss_def NewReliabilityLayer_def Let_def)
  have l1: "congestionWindow window_8 = 8"
    by (simp add: window_8_fields)
  have l2: "congestionWindow (handleSuccessfulAck (SimulatePacketLoss window_8)) = 4"
    unfolding locked by (simp add: handleSuccessfulAck_def NewReliabilityLayer_def)
  show ?thesis
    unfolding lf th ack m using w l1 l2 by (simp add: locked)
qed

subsection \<open>C10: overflow of the ordering buffer\<close>

text \<open>
  C10: when the ordering buffer of the lock-protected engine holds at least the
  configured maximum number of packets, \<open>ReceivePacket\<close> returns the overflow
  error for every packet, also for one whose sequence number has been seen, and
  leaves the whole engine state unchanged (the seen set, the ordering buffer and
  the next expected sequence number with it). Below capacity a packet whose
  sequence number has been seen is ignored without an error.
\<close>

theorem ReceivePacket_overflow_rejects:
  "(int (card (dom (orderingBuffer r))) \<ge> maxBufferSize r
      \<longrightarrow> ReceivePacket r packet = (Some ReceiveBufferOverflow, r)) \<and>
   (int (card (dom (orderingBuffer r))) < maxBufferSize r \<and> IsPacketDuplicate r packet
      \<longrightarrow> ReceivePacket r packet = (None, r))"
  by (simp add: ReceivePacket_def Let_def)

lemma full_buffer_engine_fields:
  "orderingBuffer full_buffer_engine = [900 \<mapsto> data_packet 900, 901 \<mapsto> data_packet 901]"
  "receivedSeqs full_buffer_engine = [900 \<mapsto> True, 901 \<mapsto> True]"
  "maxBufferSize full_buffer_engine = 2"
  by (simp_all add: full_buffer_engine_def SetMaxBufferSize_def ReceivePacket_def
        IsPacketDuplicate_def MarkPacketReceived_def data_packet_SeqNum NewReliabilityLayer_def
        Let_def)

theorem ReceivePacket_overflow_rejects_witness:
  "int (card (dom (orderingBuffer full_buffer_engine))) \<ge> maxBufferSize full_buffer_engine \<and>
   IsPacketDuplicate full_buffer_engine (data_packet 900) \<and>
   ReceivePacket full_buffer_engine (data_packet 900)
     = (Some ReceiveBufferOverflow, full_buffer_engine) \<and>
   ReceivePacket full_buffer_engine (data_packet 902)
     = (Some ReceiveBufferOverflow, full_buffer_engine) \<and>
   int (card (dom (orderingBuffer (SetMaxBufferSize full_buffer_engine 3))))
     < maxBufferSize (SetMaxBufferSize full_buffer_engine 3) \<and>
   ReceivePacket (SetMaxBufferSize full_buffer_engine 3) (data_packet 900)
     = (None, SetMaxBufferSize full_buffer_engine 3)"
  using ReceivePacket_overflow_rejects [of full_buffer_engine "data_packet 900"]
        ReceivePacket_overflow_rejects [of full_buffer_engine "data_packet 902"]
        ReceivePacket_overflow_rejects [of "SetMaxBufferSize full_buffer_engine 3" "data_packet 900"]
  by (simp add: full_buffer_engine_fields IsPacketDuplicate_def data_packet_SeqNum
        SetMaxBufferSize_def)


end
